theory Spec2Isabelle
  imports Main "HOL-Library.Sublist"
begin

section \<open>Python strings\<close>

text \<open>
  A Python \<open>str\<close> is a sequence of Unicode code points; \<open>len\<close>, slicing, \<open>in\<close>,
  \<open>partition\<close>, \<open>strip\<close> and the \<open>re\<close> module all count code points. A string is
  therefore a list of code points, and \<open>str\<close> reads an ASCII literal as one.
\<close>

type_synonym codepoint = nat
type_synonym pystr = "codepoint list"

definition str :: "string \<Rightarrow> pystr" where
  "str cs = map of_char cs"

text \<open>
  The characters for which \<open>str.isspace\<close> holds. \<open>str.strip()\<close> without
  argument and the pattern \<open>\s\<close> on a \<open>str\<close> both use this set.
\<close>

definition is_space :: "codepoint \<Rightarrow> bool" where
  "is_space c \<longleftrightarrow>
     (9 \<le> c \<and> c \<le> 13) \<or> (28 \<le> c \<and> c \<le> 32) \<or> c = 133 \<or> c = 160 \<or> c = 5760 \<or>
     (8192 \<le> c \<and> c \<le> 8202) \<or> c = 8232 \<or> c = 8233 \<or> c = 8239 \<or> c = 8287 \<or> c = 12288"

definition strip :: "pystr \<Rightarrow> pystr" where
  "strip s = rev (dropWhile is_space (rev (dropWhile is_space s)))"

text \<open>\<open>sub in s\<close>: \<open>sub\<close> occurs in \<open>s\<close> as a contiguous run.\<close>

fun str_in :: "pystr \<Rightarrow> pystr \<Rightarrow> bool" where
  "str_in sub [] = (sub = [])"
| "str_in sub (c # cs) = (prefix sub (c # cs) \<or> str_in sub cs)"

text \<open>The text before and after the first occurrence of \<open>sep\<close>, if there is one.\<close>

fun split_first :: "pystr \<Rightarrow> pystr \<Rightarrow> (pystr \<times> pystr) option" where
  "split_first sep [] = (if sep = [] then Some ([], []) else None)"
| "split_first sep (c # cs) =
     (if prefix sep (c # cs) then Some ([], drop (length sep) (c # cs))
      else map_option (\<lambda>(before, after). (c # before, after)) (split_first sep cs))"

datatype error = ValueError | IndexError

text \<open>
  \<open>s.partition(sep)\<close>: raises \<open>ValueError\<close> on an empty separator; otherwise the
  triple (before, separator, after) at the first occurrence, or \<open>(s, '', '')\<close>.
\<close>

definition str_partition :: "pystr \<Rightarrow> pystr \<Rightarrow> error + (pystr \<times> pystr \<times> pystr)" where
  "str_partition s sep =
     (if sep = [] then Inl ValueError
      else case split_first sep s of
             None \<Rightarrow> Inr (s, [], [])
           | Some (before, after) \<Rightarrow> Inr (before, sep, after))"

text \<open>
  \<open>xs.pop(i)\<close>: a negative index counts from the end; an index out of range raises
  \<open>IndexError\<close>.
\<close>

definition pop :: "int \<Rightarrow> 'a list \<Rightarrow> error + 'a list" where
  "pop i xs =
     (let n = int (length xs); j = (if i < 0 then n + i else i)
      in if 0 \<le> j \<and> j < n then Inr (take (nat j) xs @ drop (Suc (nat j)) xs)
         else Inl IndexError)"

section \<open>The sentence pattern\<close>

text \<open>
  \<^verbatim>\<open>sentence_pattern = re.compile(r'(.*?[.!?](?:\s|$)|\n)', re.DOTALL)\<close>, used
  with \<open>match\<close>, which anchors at the start of the buffer. The group has two alternatives,
  tried in this order.

  The first is \<^verbatim>\<open>.*?[.!?](?:\s|$)\<close>: under \<open>DOTALL\<close> the dot matches every
  character, the newline too; the lazy star tries the shortest run first, so the match
  ends at the first position holding a terminator that is followed by a whitespace
  character (which is consumed) or by \<open>$\<close> (which consumes nothing). Without
  \<open>MULTILINE\<close>, \<open>$\<close> holds at the end of the string and just before a newline that
  ends the string.
\<close>

definition is_terminator :: "codepoint \<Rightarrow> bool" where
  "is_terminator c \<longleftrightarrow> c = 46 \<or> c = 33 \<or> c = 63"

definition newline :: codepoint where
  "newline = 10"

definition at_dollar :: "pystr \<Rightarrow> bool" where
  "at_dollar rest \<longleftrightarrow> rest = [] \<or> rest = [newline]"

fun match_terminated :: "pystr \<Rightarrow> pystr option" where
  "match_terminated [] = None"
| "match_terminated (c # cs) =
     (if is_terminator c \<and> cs \<noteq> [] \<and> is_space (hd cs) then Some [c, hd cs]
      else if is_terminator c \<and> at_dollar cs then Some [c]
      else map_option (\<lambda>m. c # m) (match_terminated cs))"

text \<open>
  The second alternative is \<^verbatim>\<open>\n\<close> alone: since the match is anchored, it
  applies only to a buffer that starts with a newline. \<open>sentence_match\<close> is
  \<open>match.group(1)\<close>, or \<open>None\<close> when the pattern does not match.
\<close>

definition sentence_match :: "pystr \<Rightarrow> pystr option" where
  "sentence_match buf =
     (case match_terminated buf of
        Some m \<Rightarrow> Some m
      | None \<Rightarrow> (case buf of c # _ \<Rightarrow> if c = newline then Some [newline] else None
                 | [] \<Rightarrow> None))"

section \<open>The engine's state\<close>

text \<open>
  A callback is an opaque value of type \<open>'c\<close>; \<open>None\<close> is the absent callback. Invoking
  one appends to the list of calls, which records the call site (sentence or marker),
  the callback and its argument, in the order of invocation. Callbacks are taken to
  return normally.
\<close>

type_synonym 'c marker = "pystr \<times> pystr \<times> 'c option"

datatype 'c call = Sentence_call 'c pystr | Marker_call 'c pystr

record 'c state =
  full_text :: pystr
  buffer :: pystr
  active_markers :: "'c marker list"
  calls :: "'c call list"

definition init :: "'c state" where
  "init = \<lparr>full_text = [], buffer = [], active_markers = [], calls = []\<rparr>"

section \<open>process_active_markers\<close>

text \<open>
  The loop over \<open>enumerate(active_markers)\<close>, from index \<open>i\<close> on. The assignment to the
  buffer and the \<open>return i\<close> are inside \<open>if marked_text.strip():\<close>; a marker whose
  end-token is found after blank text falls through to the next marker.
\<close>

fun process_active_markers_from ::
  "int \<Rightarrow> 'c marker list \<Rightarrow> 'c state \<Rightarrow> (error + int) \<times> 'c state" where
  "process_active_markers_from i [] s = (Inr (- 1), s)"
| "process_active_markers_from i ((start, endm, callback) # ms) s =
     (if str_in endm (buffer s) then
        (case str_partition (buffer s) endm of
           Inl e \<Rightarrow> (Inl e, s)
         | Inr (marked_text, _, rest) \<Rightarrow>
             if strip marked_text \<noteq> [] then
               (Inr i,
                (case callback of
                   None \<Rightarrow> s
                 | Some c \<Rightarrow> s\<lparr>calls := calls s @ [Marker_call c marked_text]\<rparr>)
                \<lparr>buffer := rest\<rparr>)
             else process_active_markers_from (i + 1) ms s)
      else process_active_markers_from (i + 1) ms s)"

definition process_active_markers :: "'c state \<Rightarrow> (error + int) \<times> 'c state" where
  "process_active_markers s = process_active_markers_from 0 (active_markers s) s"

section \<open>process_new_markers_or_sentences\<close>

text \<open>
  \<open>if sentence_callback and text.strip(): sentence_callback(text.strip())\<close>, as written
  both in the sentence branch and in the final flush.
\<close>

definition call_sentence :: "'c option \<Rightarrow> pystr \<Rightarrow> 'c state \<Rightarrow> 'c state" where
  "call_sentence sentence_callback text s =
     (case sentence_callback of
        None \<Rightarrow> s
      | Some c \<Rightarrow>
          if strip text \<noteq> [] then s\<lparr>calls := calls s @ [Sentence_call c (strip text)]\<rparr>
          else s)"

text \<open>The first marker tuple, in the caller's order, whose start-token is in the buffer.\<close>

fun find_start :: "'c marker list \<Rightarrow> pystr \<Rightarrow> 'c marker option" where
  "find_start [] buf = None"
| "find_start ((start, endm, callback) # ms) buf =
     (if str_in start buf then Some (start, endm, callback) else find_start ms buf)"

text \<open>
  \<open>marker_tuples\<close> is optional; \<open>None\<close> and the empty list are both false in
  \<open>if marker_tuples:\<close>, and then the loop over the tuples is skipped.
\<close>

definition tuples_of :: "'c marker list option \<Rightarrow> 'c marker list" where
  "tuples_of marker_tuples = (case marker_tuples of None \<Rightarrow> [] | Some ms \<Rightarrow> ms)"

definition process_new_markers_or_sentences ::
  "'c marker list option \<Rightarrow> 'c option \<Rightarrow> 'c state \<Rightarrow> (error + bool) \<times> 'c state" where
  "process_new_markers_or_sentences marker_tuples sentence_callback s =
     (case find_start (tuples_of marker_tuples) (buffer s) of
        Some (start, endm, callback) \<Rightarrow>
          (case str_partition (buffer s) start of
             Inl e \<Rightarrow> (Inl e, s)
           | Inr (_, _, rest) \<Rightarrow>
               (Inr True,
                s\<lparr>buffer := rest,
                  active_markers := active_markers s @ [(start, endm, callback)]\<rparr>))
      | None \<Rightarrow>
          (case sentence_match (buffer s) of
             Some sentence \<Rightarrow>
               (Inr True,
                (call_sentence sentence_callback sentence s)
                \<lparr>buffer := drop (length sentence) (buffer s)\<rparr>)
           | None \<Rightarrow> (Inr False, s)))"

section \<open>The loops of process_text_stream\<close>

text \<open>
  One pass of a \<open>while buffer:\<close> loop either goes on to the next test of the loop
  condition, leaves the loop by \<open>break\<close>, or raises.
\<close>

datatype 'c pass = Continue "'c state" | Break "'c state" | Raised error "'c state"

text \<open>The body of the loop that runs after each chunk.\<close>

definition loop_pass :: "'c marker list option \<Rightarrow> 'c option \<Rightarrow> 'c state \<Rightarrow> 'c pass" where
  "loop_pass marker_tuples sentence_callback s =
     (if active_markers s \<noteq> [] then
        (case process_active_markers s of
           (Inl e, s') \<Rightarrow> Raised e s'
         | (Inr marker_index, s') \<Rightarrow>
             if marker_index \<ge> 0 then
               (case pop marker_index (active_markers s') of
                  Inl e \<Rightarrow> Raised e s'
                | Inr ms \<Rightarrow> Continue (s'\<lparr>active_markers := ms\<rparr>))
             else Break s')
      else
        (case process_new_markers_or_sentences marker_tuples sentence_callback s of
           (Inl e, s') \<Rightarrow> Raised e s'
         | (Inr progressed, s') \<Rightarrow> if progressed then Continue s' else Break s'))"

text \<open>
  The loop itself. \<open>None\<close> is a loop that never ends; \<open>Some (Inl e, s)\<close> is the
  exception \<open>e\<close> raised in state \<open>s\<close>.
\<close>

partial_function (option) consume ::
  "'c marker list option \<Rightarrow> 'c option \<Rightarrow> 'c state \<Rightarrow> ((error + unit) \<times> 'c state) option" where
  "consume marker_tuples sentence_callback s =
     (if buffer s = [] then Some (Inr (), s)
      else case loop_pass marker_tuples sentence_callback s of
             Continue s' \<Rightarrow> consume marker_tuples sentence_callback s'
           | Break s' \<Rightarrow> Some (Inr (), s')
           | Raised e s' \<Rightarrow> Some (Inl e, s'))"

declare consume.simps [code]

text \<open>\<open>for chunk in text_stream\<close>, over a finite stream.\<close>

definition receive :: "pystr \<Rightarrow> 'c state \<Rightarrow> 'c state" where
  "receive chunk s = s\<lparr>full_text := full_text s @ chunk, buffer := buffer s @ chunk\<rparr>"

fun feed ::
  "'c marker list option \<Rightarrow> 'c option \<Rightarrow> pystr list \<Rightarrow> 'c state
     \<Rightarrow> ((error + unit) \<times> 'c state) option" where
  "feed marker_tuples sentence_callback [] s = Some (Inr (), s)"
| "feed marker_tuples sentence_callback (chunk # chunks) s =
     (case consume marker_tuples sentence_callback (receive chunk s) of
        None \<Rightarrow> None
      | Some (Inl e, s') \<Rightarrow> Some (Inl e, s')
      | Some (Inr _, s') \<Rightarrow> feed marker_tuples sentence_callback chunks s')"

text \<open>The loop that processes the remaining buffer at the end of the stream.\<close>

definition flush_pass :: "'c option \<Rightarrow> 'c state \<Rightarrow> 'c pass" where
  "flush_pass sentence_callback s =
     (if active_markers s \<noteq> [] then
        (case pop 0 (active_markers s) of
           Inl e \<Rightarrow> Raised e s
         | Inr ms \<Rightarrow> Continue (s\<lparr>active_markers := ms\<rparr>))
      else Break (call_sentence sentence_callback (buffer s) s))"

partial_function (option) flush ::
  "'c option \<Rightarrow> 'c state \<Rightarrow> ((error + unit) \<times> 'c state) option" where
  "flush sentence_callback s =
     (if buffer s = [] then Some (Inr (), s)
      else case flush_pass sentence_callback s of
             Continue s' \<Rightarrow> flush sentence_callback s'
           | Break s' \<Rightarrow> Some (Inr (), s')
           | Raised e s' \<Rightarrow> Some (Inl e, s'))"

declare flush.simps [code]

text \<open>
  The whole call: the outcome (the exception raised, or the string returned) with the
  callback invocations made, in order; \<open>None\<close> if the call never ends.
\<close>

definition process_text_stream ::
  "pystr list \<Rightarrow> 'c option \<Rightarrow> 'c marker list option
     \<Rightarrow> ((error + pystr) \<times> 'c call list) option" where
  "process_text_stream text_stream sentence_callback marker_tuples =
     (case feed marker_tuples sentence_callback text_stream init of
        None \<Rightarrow> None
      | Some (Inl e, s) \<Rightarrow> Some (Inl e, calls s)
      | Some (Inr _, s) \<Rightarrow>
          (case flush sentence_callback s of
             None \<Rightarrow> None
           | Some (Inl e, s') \<Rightarrow> Some (Inl e, calls s')
           | Some (Inr _, s') \<Rightarrow> Some (Inr (full_text s'), calls s')))"

section \<open>Notions used to state the properties\<close>

text \<open>The state in which a pass ends, whichever way it ends.\<close>

fun pass_state :: "'c pass \<Rightarrow> 'c state" where
  "pass_state (Continue s) = s"
| "pass_state (Break s) = s"
| "pass_state (Raised e s) = s"

text \<open>
  The states a call can be in between two steps: the initial state, the state after a
  chunk has been appended, after \<open>process_active_markers\<close> has returned, after a pass
  of the consume loop and after a pass of the final loop.
\<close>

inductive reachable :: "'c marker list option \<Rightarrow> 'c option \<Rightarrow> 'c state \<Rightarrow> bool"
  for marker_tuples :: "'c marker list option" and sentence_callback :: "'c option" where
  reach_init: "reachable marker_tuples sentence_callback init"
| reach_receive:
    "reachable marker_tuples sentence_callback s \<Longrightarrow>
     reachable marker_tuples sentence_callback (receive chunk s)"
| reach_markers:
    "reachable marker_tuples sentence_callback s \<Longrightarrow> buffer s \<noteq> [] \<Longrightarrow>
     active_markers s \<noteq> [] \<Longrightarrow>
     reachable marker_tuples sentence_callback (snd (process_active_markers s))"
| reach_loop:
    "reachable marker_tuples sentence_callback s \<Longrightarrow> buffer s \<noteq> [] \<Longrightarrow>
     reachable marker_tuples sentence_callback
       (pass_state (loop_pass marker_tuples sentence_callback s))"
| reach_flush:
    "reachable marker_tuples sentence_callback s \<Longrightarrow> buffer s \<noteq> [] \<Longrightarrow>
     reachable marker_tuples sentence_callback (pass_state (flush_pass sentence_callback s))"

text \<open>A string that is not empty and neither starts nor ends with whitespace.\<close>

definition trimmed :: "pystr \<Rightarrow> bool" where
  "trimmed t \<longleftrightarrow> t \<noteq> [] \<and> \<not> is_space (hd t) \<and> \<not> is_space (last t)"

text \<open>
  The data model's marker specs: every start-token and every end-token is a non-empty
  string.
\<close>

definition tokens_nonempty :: "'c marker list option \<Rightarrow> bool" where
  "tokens_nonempty marker_tuples =
     list_all (\<lambda>(start, endm, callback). start \<noteq> [] \<and> endm \<noteq> []) (tuples_of marker_tuples)"

text \<open>
  What every state of a call satisfies: at most one marker is open, an open marker is one
  of the caller's tuples, and the sentence callback has only received trimmed text.
\<close>

definition safe :: "'c marker list option \<Rightarrow> 'c state \<Rightarrow> bool" where
  "safe marker_tuples s \<longleftrightarrow>
     length (active_markers s) \<le> 1 \<and>
     set (active_markers s) \<subseteq> set (tuples_of marker_tuples) \<and>
     (\<forall>c t. Sentence_call c t \<in> set (calls s) \<longrightarrow> trimmed t)"

text \<open>
  A prefix of the buffer that ends in a terminator followed by the end of the buffer, or
  in a terminator and the whitespace character after it.
\<close>

definition terminated_prefix :: "pystr \<Rightarrow> pystr \<Rightarrow> bool" where
  "terminated_prefix buf p \<longleftrightarrow>
     prefix p buf \<and>
     ((p \<noteq> [] \<and> is_terminator (last p) \<and> p = buf) \<or>
      (2 \<le> length p \<and> is_terminator (last (butlast p)) \<and> is_space (last p)))"

text \<open>
  The sentence units in the specification's words: a prefix of the buffer that is a run of
  characters up to and including a terminator followed by whitespace or by the end of the
  buffer, or a run of characters up to and including a newline.
\<close>

definition spec_unit :: "pystr \<Rightarrow> pystr \<Rightarrow> bool" where
  "spec_unit buf p \<longleftrightarrow>
     prefix p buf \<and> p \<noteq> [] \<and>
     ((is_terminator (last p) \<and>
       (case drop (length p) buf of [] \<Rightarrow> True | d # _ \<Rightarrow> is_space d)) \<or>
      last p = newline)"

section \<open>Facts about the string operations\<close>

lemma str_in_iff: "str_in sub s \<longleftrightarrow> (\<exists>p q. s = p @ sub @ q)"
proof (induction s)
  case Nil
  then show ?case by auto
next
  case (Cons c cs)
  show ?case
  proof
    assume "str_in sub (c # cs)"
    then consider "prefix sub (c # cs)" | "str_in sub cs" by auto
    then show "\<exists>p q. c # cs = p @ sub @ q"
    proof cases
      case 1
      then obtain q where "c # cs = sub @ q" by (auto simp: prefix_def)
      then have "c # cs = [] @ sub @ q" by simp
      then show ?thesis by blast
    next
      case 2
      with Cons.IH obtain p q where "cs = p @ sub @ q" by blast
      then have "c # cs = (c # p) @ sub @ q" by simp
      then show ?thesis by blast
    qed
  next
    assume "\<exists>p q. c # cs = p @ sub @ q"
    then obtain p q where pq: "c # cs = p @ sub @ q" by blast
    show "str_in sub (c # cs)"
    proof (cases p)
      case Nil
      with pq have "prefix sub (c # cs)" by (auto simp: prefix_def)
      then show ?thesis by simp
    next
      case (Cons d p')
      with pq have "cs = p' @ sub @ q" by simp
      with Cons.IH have "str_in sub cs" by blast
      then show ?thesis by simp
    qed
  qed
qed

lemma split_first_None: "split_first sep s = None \<longleftrightarrow> \<not> str_in sep s"
  by (induction s) auto

lemma split_first_Some: "split_first sep s = Some (b, a) \<Longrightarrow> s = b @ sep @ a"
proof (induction s arbitrary: b)
  case Nil
  then show ?case by (auto split: if_splits)
next
  case (Cons c cs)
  show ?case
  proof (cases "prefix sep (c # cs)")
    case True
    with Cons.prems have "b = []" "a = drop (length sep) (c # cs)" by auto
    moreover from True obtain q where "c # cs = sep @ q" by (auto simp: prefix_def)
    ultimately show ?thesis by simp
  next
    case False
    with Cons.prems obtain b' where "split_first sep cs = Some (b', a)" "b = c # b'"
      by auto
    with Cons.IH show ?thesis by simp
  qed
qed


lemma str_partition_found:
  assumes "str_in sep s" "sep \<noteq> []"
  shows "\<exists>b a. str_partition s sep = Inr (b, sep, a) \<and> s = b @ sep @ a"
proof -
  from assms(1) obtain b a where "split_first sep s = Some (b, a)"
    using split_first_None [of sep s] by (cases "split_first sep s") auto
  with assms(2) split_first_Some show ?thesis by (auto simp: str_partition_def)
qed

lemma str_partition_Inl: "str_partition s sep = Inl e \<Longrightarrow> sep = [] \<and> e = ValueError"
  by (auto simp: str_partition_def split: if_splits option.splits)

lemma strip_nonempty_ends:
  assumes "strip s \<noteq> []"
  shows "\<not> is_space (hd (strip s))" "\<not> is_space (last (strip s))"
proof -
  let ?d = "dropWhile is_space s"
  let ?r = "dropWhile is_space (rev ?d)"
  from assms have r: "?r \<noteq> []" by (simp add: strip_def)
  then have "\<not> is_space (hd ?r)" by (rule hd_dropWhile)
  then show "\<not> is_space (last (strip s))" using r by (simp add: strip_def last_rev)
  from r have d: "?d \<noteq> []" by (metis dropWhile.simps(1) rev.simps(1))
  then have hd: "\<not> is_space (hd ?d)" by (rule hd_dropWhile)
  have "rev ?d = takeWhile is_space (rev ?d) @ ?r" by simp
  then have "last (rev ?d) = last ?r" using r by (metis last_appendR)
  moreover have "hd (strip s) = last ?r" using r by (simp add: strip_def hd_rev)
  moreover have "last (rev ?d) = hd ?d" using d by (simp add: last_rev)
  ultimately show "\<not> is_space (hd (strip s))" using hd by simp
qed

lemma strip_strip: "strip (strip s) = strip s"
proof (cases "strip s = []")
  case True
  have "strip [] = []" by (simp add: strip_def)
  with True show ?thesis by simp
next
  case False
  note e = strip_nonempty_ends [OF False]
  let ?t = "strip s"
  from False e(1) have 1: "dropWhile is_space ?t = ?t" by (cases ?t) auto
  from False e(2) have "\<not> is_space (hd (rev ?t))" by (simp add: hd_rev)
  with False have 2: "dropWhile is_space (rev ?t) = rev ?t"
    by (cases "rev ?t") auto
  show ?thesis unfolding strip_def [of "strip s"] 1 2 by simp
qed

lemma match_terminated_prefix:
  "match_terminated s = Some m \<Longrightarrow> m \<noteq> [] \<and> prefix m s"
proof (induction s arbitrary: m)
  case Nil
  then show ?case by simp
next
  case (Cons c cs)
  show ?case
  proof (cases "is_terminator c \<and> cs \<noteq> [] \<and> is_space (hd cs)")
    case True
    with Cons.prems have "m = [c, hd cs]" by simp
    with True show ?thesis by (cases cs) auto
  next
    case F1: False
    show ?thesis
    proof (cases "is_terminator c \<and> at_dollar cs")
      case True
      with F1 Cons.prems have "m = [c]" by auto
      then show ?thesis by simp
    next
      case False
      with F1 Cons.prems obtain m' where "match_terminated cs = Some m'" "m = c # m'"
        by auto
      with Cons.IH show ?thesis by auto
    qed
  qed
qed

lemma sentence_match_prefix:
  "sentence_match s = Some m \<Longrightarrow> m \<noteq> [] \<and> prefix m s"
  by (auto simp: sentence_match_def dest: match_terminated_prefix
           split: option.splits list.splits if_splits)

section \<open>Facts about process_active_markers\<close>

lemma pam_from_raise:
  "process_active_markers_from i ms s = (Inl e, s') \<Longrightarrow>
     e = ValueError \<and> s' = s \<and> (\<exists>m \<in> set ms. fst (snd m) = [])"
proof (induction ms arbitrary: i)
  case Nil
  then show ?case by simp
next
  case (Cons m ms)
  obtain st en cb where m: "m = (st, en, cb)" by (cases m)
  show ?case
  proof (cases "str_in en (buffer s)")
    case False
    with Cons.prems m have "process_active_markers_from (i + 1) ms s = (Inl e, s')" by simp
    from Cons.IH [OF this] show ?thesis by auto
  next
    case True
    show ?thesis
    proof (cases "str_partition (buffer s) en")
      case (Inl e')
      with True Cons.prems m str_partition_Inl [OF Inl] show ?thesis by auto
    next
      case (Inr t)
      obtain marked sep rest where t: "t = (marked, sep, rest)" by (cases t)
      show ?thesis
      proof (cases "strip marked = []")
        case True
        with \<open>str_in en (buffer s)\<close> Inr t Cons.prems m
        have "process_active_markers_from (i + 1) ms s = (Inl e, s')" by simp
        from Cons.IH [OF this] show ?thesis by auto
      next
        case False
        with \<open>str_in en (buffer s)\<close> Inr t Cons.prems m show ?thesis by simp
      qed
    qed
  qed
qed

lemma pam_from_none:
  "process_active_markers_from i ms s = (Inr j, s') \<Longrightarrow> 0 \<le> i \<Longrightarrow> j < 0 \<Longrightarrow>
     j = - 1 \<and> s' = s"
proof (induction ms arbitrary: i)
  case Nil
  then show ?case by simp
next
  case (Cons m ms)
  obtain st en cb where m: "m = (st, en, cb)" by (cases m)
  have rec: "process_active_markers_from (i + 1) ms s = (Inr j, s') \<Longrightarrow> ?case"
    using Cons.IH [of "i + 1"] Cons.prems(2,3) by simp
  show ?case
  proof (cases "str_in en (buffer s)")
    case False
    with Cons.prems m rec show ?thesis by simp
  next
    case True
    show ?thesis
    proof (cases "str_partition (buffer s) en")
      case (Inl e')
      with True Cons.prems m show ?thesis by simp
    next
      case (Inr t)
      obtain marked sep rest where t: "t = (marked, sep, rest)" by (cases t)
      show ?thesis
      proof (cases "strip marked = []")
        case True
        with \<open>str_in en (buffer s)\<close> Inr t Cons.prems m rec show ?thesis by simp
      next
        case False
        with \<open>str_in en (buffer s)\<close> Inr t Cons.prems m show ?thesis by simp
      qed
    qed
  qed
qed

lemma pam_from_closed:
  "process_active_markers_from i ms s = (Inr j, s') \<Longrightarrow> 0 \<le> i \<Longrightarrow> 0 \<le> j \<Longrightarrow>
     i \<le> j \<and> j < i + int (length ms) \<and>
     (\<exists>st en cb marked.
        ms ! nat (j - i) = (st, en, cb) \<and> en \<noteq> [] \<and> strip marked \<noteq> [] \<and>
        buffer s = marked @ en @ buffer s' \<and>
        s' = s\<lparr>buffer := buffer s',
               calls := calls s @ (case cb of None \<Rightarrow> [] | Some c \<Rightarrow> [Marker_call c marked])\<rparr>)"
proof (induction ms arbitrary: i)
  case Nil
  then show ?case by simp
next
  case (Cons m ms)
  obtain st en cb where m: "m = (st, en, cb)" by (cases m)
  have rec: ?case if "process_active_markers_from (i + 1) ms s = (Inr j, s')"
  proof -
    from Cons.IH [OF that] Cons.prems(2,3)
    obtain st' en' cb' marked where
      *: "i + 1 \<le> j" "j < i + 1 + int (length ms)" "ms ! nat (j - (i + 1)) = (st', en', cb')"
         "en' \<noteq> []" "strip marked \<noteq> []" "buffer s = marked @ en' @ buffer s'"
         "s' = s\<lparr>buffer := buffer s',
               calls := calls s @ (case cb' of None \<Rightarrow> [] | Some c \<Rightarrow> [Marker_call c marked])\<rparr>"
      by auto
    from *(1) have "nat (j - i) = Suc (nat (j - (i + 1)))" by simp
    with *(3) have "(m # ms) ! nat (j - i) = (st', en', cb')" by simp
    with * show ?thesis by auto
  qed
  show ?case
  proof (cases "str_in en (buffer s)")
    case False
    with Cons.prems m rec show ?thesis by simp
  next
    case True
    show ?thesis
    proof (cases "en = []")
      case True
      with \<open>str_in en (buffer s)\<close> Cons.prems m show ?thesis
        by (simp add: str_partition_def)
    next
      case ne: False
      from str_partition_found [OF True ne] obtain b a where
        p: "str_partition (buffer s) en = Inr (b, en, a)" "buffer s = b @ en @ a" by blast
      show ?thesis
      proof (cases "strip b = []")
        case True
        with \<open>str_in en (buffer s)\<close> p Cons.prems m rec show ?thesis by simp
      next
        case False
        with \<open>str_in en (buffer s)\<close> p Cons.prems m
        have j: "j = i" and s': "s' = (case cb of None \<Rightarrow> s
                 | Some c \<Rightarrow> s\<lparr>calls := calls s @ [Marker_call c b]\<rparr>)\<lparr>buffer := a\<rparr>"
          by simp_all
        from s' have "buffer s' = a" by simp
        with s' have "s' = s\<lparr>buffer := buffer s',
               calls := calls s @ (case cb of None \<Rightarrow> [] | Some c \<Rightarrow> [Marker_call c b])\<rparr>"
          by (cases cb) simp_all
        with j m ne False p(2) \<open>buffer s' = a\<close> show ?thesis by auto
      qed
    qed
  qed
qed

lemma process_active_markers_closed:
  assumes "process_active_markers s = (Inr j, s')" "0 \<le> j"
  shows "nat j < length (active_markers s) \<and>
     pop j (active_markers s') =
       Inr (take (nat j) (active_markers s) @ drop (Suc (nat j)) (active_markers s)) \<and>
     (\<exists>st en cb marked.
        active_markers s ! nat j = (st, en, cb) \<and> en \<noteq> [] \<and> strip marked \<noteq> [] \<and>
        buffer s = marked @ en @ buffer s' \<and>
        s' = s\<lparr>buffer := buffer s',
               calls := calls s @ (case cb of None \<Rightarrow> [] | Some c \<Rightarrow> [Marker_call c marked])\<rparr>)"
proof -
  from assms have
    "process_active_markers_from 0 (active_markers s) s = (Inr j, s')"
    by (simp add: process_active_markers_def)
  from pam_from_closed [OF this _ assms(2)] obtain st en cb marked where
    *: "j < int (length (active_markers s))" "active_markers s ! nat j = (st, en, cb)"
       "en \<noteq> []" "strip marked \<noteq> []" "buffer s = marked @ en @ buffer s'"
       "s' = s\<lparr>buffer := buffer s',
               calls := calls s @ (case cb of None \<Rightarrow> [] | Some c \<Rightarrow> [Marker_call c marked])\<rparr>"
    by auto
  from *(6) have am: "active_markers s' = active_markers s"
    by (metis (no_types, lifting) state.select_convs(3) state.surjective state.update_convs(2,4))
  from *(1) assms(2) have "nat j < length (active_markers s)" by simp
  moreover from this assms(2) am have "pop j (active_markers s') =
       Inr (take (nat j) (active_markers s) @ drop (Suc (nat j)) (active_markers s))"
    by (simp add: pop_def Let_def)
  ultimately show ?thesis using * by blast
qed

lemma process_active_markers_none:
  "process_active_markers s = (Inr j, s') \<Longrightarrow> j < 0 \<Longrightarrow> s' = s"
  using pam_from_none [of 0 "active_markers s" s j s']
  by (simp add: process_active_markers_def)

lemma process_active_markers_raise:
  "process_active_markers s = (Inl e, s') \<Longrightarrow>
     e = ValueError \<and> s' = s \<and> (\<exists>m \<in> set (active_markers s). fst (snd m) = [])"
  using pam_from_raise [of 0 "active_markers s" s e s']
  by (simp add: process_active_markers_def)

lemma find_start_Some:
  "find_start ms buf = Some (st, en, cb) \<Longrightarrow>
     \<exists>pre post. ms = pre @ (st, en, cb) # post \<and> str_in st buf \<and>
       (\<forall>m \<in> set pre. \<not> str_in (fst m) buf)"
proof (induction ms)
  case Nil
  then show ?case by simp
next
  case (Cons m ms)
  obtain st' en' cb' where m: "m = (st', en', cb')" by (cases m)
  show ?case
  proof (cases "str_in st' buf")
    case True
    with Cons.prems m have "m = (st, en, cb)" by simp
    with True m have "m # ms = [] @ (st, en, cb) # ms \<and> str_in st buf \<and>
       (\<forall>m \<in> set []. \<not> str_in (fst m) buf)" by simp
    then show ?thesis by blast
  next
    case False
    with Cons.prems m have "find_start ms buf = Some (st, en, cb)" by simp
    with Cons.IH obtain pre post where
      "ms = pre @ (st, en, cb) # post" "str_in st buf" "\<forall>m \<in> set pre. \<not> str_in (fst m) buf"
      by blast
    with False m have "m # ms = (m # pre) @ (st, en, cb) # post \<and> str_in st buf \<and>
       (\<forall>m \<in> set (m # pre). \<not> str_in (fst m) buf)" by simp
    then show ?thesis by blast
  qed
qed

lemma find_start_first:
  "ms = pre @ (st, en, cb) # post \<Longrightarrow> str_in st buf \<Longrightarrow>
     \<forall>m \<in> set pre. \<not> str_in (fst m) buf \<Longrightarrow> find_start ms buf = Some (st, en, cb)"
proof (induction pre arbitrary: ms)
  case Nil
  then show ?case by simp
next
  case (Cons m pre)
  obtain st' en' cb' where m: "m = (st', en', cb')" by (cases m)
  with Cons.prems have "\<not> str_in st' buf" by simp
  moreover have "find_start (pre @ (st, en, cb) # post) buf = Some (st, en, cb)"
    using Cons.IH [OF refl Cons.prems(2)] Cons.prems(3) by simp
  ultimately show ?case using Cons.prems(1) m by simp
qed

lemma find_start_None:
  "find_start ms buf = None \<longleftrightarrow> (\<forall>m \<in> set ms. \<not> str_in (fst m) buf)"
proof (induction ms)
  case Nil
  then show ?case by simp
next
  case (Cons m ms)
  obtain st en cb where "m = (st, en, cb)" by (cases m)
  with Cons.IH show ?case by simp
qed

section \<open>Facts about one pass of the consume loop\<close>

lemma pnms_marker:
  assumes "find_start (tuples_of mt) (buffer s) = Some (st, en, cb)"
  shows "process_new_markers_or_sentences mt scb s =
     (if st = [] then (Inl ValueError, s)
      else case split_first st (buffer s) of
             Some (b, a) \<Rightarrow>
               (Inr True, s\<lparr>buffer := a, active_markers := active_markers s @ [(st, en, cb)]\<rparr>)
           | None \<Rightarrow> (Inr True, s\<lparr>buffer := [],
                         active_markers := active_markers s @ [(st, en, cb)]\<rparr>))"
  using assms
  by (simp add: process_new_markers_or_sentences_def str_partition_def split: option.splits)

lemma pnms_sentence:
  assumes "find_start (tuples_of mt) (buffer s) = None"
  shows "process_new_markers_or_sentences mt scb s =
     (case sentence_match (buffer s) of
        Some m \<Rightarrow> (Inr True, (call_sentence scb m s)\<lparr>buffer := drop (length m) (buffer s)\<rparr>)
      | None \<Rightarrow> (Inr False, s))"
  using assms by (simp add: process_new_markers_or_sentences_def)

lemma loop_pass_Continue:
  assumes "loop_pass mt scb s = Continue s'"
  obtains
    (close) j st en cb marked where
      "active_markers s \<noteq> []" "j < length (active_markers s)"
      "active_markers s ! j = (st, en, cb)" "en \<noteq> []" "strip marked \<noteq> []"
      "buffer s = marked @ en @ buffer s'"
      "s' = s\<lparr>buffer := buffer s',
             calls := calls s @ (case cb of None \<Rightarrow> [] | Some c \<Rightarrow> [Marker_call c marked]),
             active_markers := take j (active_markers s) @ drop (Suc j) (active_markers s)\<rparr>"
  | (opened) st en cb before where
      "active_markers s = []" "find_start (tuples_of mt) (buffer s) = Some (st, en, cb)"
      "st \<noteq> []" "split_first st (buffer s) = Some (before, buffer s')"
      "buffer s = before @ st @ buffer s'"
      "s' = s\<lparr>buffer := buffer s', active_markers := [(st, en, cb)]\<rparr>"
  | (sentence) m where
      "active_markers s = []" "find_start (tuples_of mt) (buffer s) = None"
      "sentence_match (buffer s) = Some m"
      "s' = (call_sentence scb m s)\<lparr>buffer := drop (length m) (buffer s)\<rparr>"
proof (cases "active_markers s = []")
  case False
  obtain r s1 where pam: "process_active_markers s = (r, s1)" by (cases "process_active_markers s")
  with False assms obtain j where r: "r = Inr j" and j: "0 \<le> j"
    by (cases r) (auto simp: loop_pass_def split: if_splits)
  note c = process_active_markers_closed [OF pam [unfolded r] j]
  from c obtain st en cb marked where
    *: "active_markers s ! nat j = (st, en, cb)" "en \<noteq> []" "strip marked \<noteq> []"
       "buffer s = marked @ en @ buffer s1"
       "s1 = s\<lparr>buffer := buffer s1,
               calls := calls s @ (case cb of None \<Rightarrow> [] | Some c \<Rightarrow> [Marker_call c marked])\<rparr>"
    by blast
  from False assms pam r j c
  have s': "s' = s1\<lparr>active_markers := take (nat j) (active_markers s) @ drop (Suc (nat j)) (active_markers s)\<rparr>"
    by (simp add: loop_pass_def)
  then have b: "buffer s' = buffer s1" by simp
  from s' *(5) have "s' = s\<lparr>buffer := buffer s',
             calls := calls s @ (case cb of None \<Rightarrow> [] | Some c \<Rightarrow> [Marker_call c marked]),
             active_markers := take (nat j) (active_markers s) @ drop (Suc (nat j)) (active_markers s)\<rparr>"
    unfolding b by simp
  with False c * b show ?thesis by (intro close [of "nat j" st en cb marked]) simp_all
next
  case True
  show ?thesis
  proof (cases "find_start (tuples_of mt) (buffer s)")
    case None
    from True assms pnms_sentence [OF None, of scb]
    obtain m where "sentence_match (buffer s) = Some m"
      "s' = (call_sentence scb m s)\<lparr>buffer := drop (length m) (buffer s)\<rparr>"
      by (cases "sentence_match (buffer s)") (auto simp: loop_pass_def)
    with True None show ?thesis by (intro sentence [of m])
  next
    case (Some t)
    obtain st en cb where t: "t = (st, en, cb)" by (cases t)
    note p = pnms_marker [OF Some [unfolded t], of scb]
    from True assms p have ne: "st \<noteq> []" by (auto simp: loop_pass_def split: if_splits)
    from find_start_Some [OF Some [unfolded t]] have "str_in st (buffer s)" by blast
    then obtain b a where sf: "split_first st (buffer s) = Some (b, a)"
      using split_first_None [of st "buffer s"] by (cases "split_first st (buffer s)") auto
    from split_first_Some [OF sf] have bs: "buffer s = b @ st @ a" .
    from True assms p ne sf
    have s': "s' = s\<lparr>buffer := a, active_markers := [(st, en, cb)]\<rparr>"
      by (simp add: loop_pass_def)
    then have "buffer s' = a" by simp
    with s' bs sf True Some t ne show ?thesis by (intro opened [of st en cb b]) simp_all
  qed
qed

lemma loop_pass_Break: "loop_pass mt scb s = Break s' \<Longrightarrow> s' = s"
proof (cases "active_markers s = []")
  case False
  assume a: "loop_pass mt scb s = Break s'"
  obtain r s1 where pam: "process_active_markers s = (r, s1)" by (cases "process_active_markers s")
  with False a obtain j where r: "r = Inr j" and j: "j < 0" and "s' = s1"
    by (cases r) (auto simp: loop_pass_def split: if_splits sum.splits)
  with process_active_markers_none [OF pam [unfolded r] j] show ?thesis by simp
next
  case True
  assume a: "loop_pass mt scb s = Break s'"
  show ?thesis
  proof (cases "find_start (tuples_of mt) (buffer s)")
    case None
    from True a pnms_sentence [OF None, of scb] show ?thesis
      by (cases "sentence_match (buffer s)") (auto simp: loop_pass_def)
  next
    case (Some t)
    obtain st en cb where t: "t = (st, en, cb)" by (cases t)
    from True a pnms_marker [OF Some [unfolded t], of scb] show ?thesis
      by (auto simp: loop_pass_def split: if_splits option.splits)
  qed
qed

lemma loop_pass_Raised:
  assumes "loop_pass mt scb s = Raised e s'"
  shows "s' = s \<and> e = ValueError \<and>
     ((\<exists>m \<in> set (active_markers s). fst (snd m) = []) \<or>
      (active_markers s = [] \<and> (\<exists>m \<in> set (tuples_of mt). fst m = [])))"
proof (cases "active_markers s = []")
  case False
  obtain r s1 where pam: "process_active_markers s = (r, s1)" by (cases "process_active_markers s")
  show ?thesis
  proof (cases r)
    case (Inl e')
    with False assms pam have "e' = e" "s1 = s'" by (simp_all add: loop_pass_def)
    with process_active_markers_raise [OF pam [unfolded Inl]] show ?thesis by simp
  next
    case (Inr j)
    with False assms pam have j: "0 \<le> j" by (auto simp: loop_pass_def split: if_splits)
    from process_active_markers_closed [OF pam [unfolded Inr] j] False assms pam Inr j
    show ?thesis by (simp add: loop_pass_def)
  qed
next
  case True
  show ?thesis
  proof (cases "find_start (tuples_of mt) (buffer s)")
    case None
    from True assms pnms_sentence [OF None, of scb] show ?thesis
      by (cases "sentence_match (buffer s)") (auto simp: loop_pass_def)
  next
    case (Some t)
    obtain st en cb where t: "t = (st, en, cb)" by (cases t)
    from find_start_Some [OF Some [unfolded t]] have "(st, en, cb) \<in> set (tuples_of mt)" by auto
    moreover from True assms pnms_marker [OF Some [unfolded t], of scb]
    have "s' = s \<and> e = ValueError \<and> st = []"
      by (auto simp: loop_pass_def split: if_splits option.splits)
    ultimately show ?thesis using True by force
  qed
qed

section \<open>Facts about the loops\<close>

lemma call_sentence_fields [simp]:
  "buffer (call_sentence scb t s) = buffer s"
  "full_text (call_sentence scb t s) = full_text s"
  "active_markers (call_sentence scb t s) = active_markers s"
  by (simp_all add: call_sentence_def split: option.splits)

lemma call_sentence_calls:
  "calls (call_sentence scb t s) =
     calls s @ (case scb of None \<Rightarrow> []
                | Some c \<Rightarrow> if strip t \<noteq> [] then [Sentence_call c (strip t)] else [])"
  by (simp add: call_sentence_def split: option.splits)

lemma loop_pass_shortens:
  assumes "loop_pass mt scb s = Continue s'"
  shows "length (buffer s') < length (buffer s)"
  using assms
proof (cases rule: loop_pass_Continue)
  case (close j st en cb marked)
  then show ?thesis by simp
next
  case (opened st en cb before)
  then show ?thesis by simp
next
  case (sentence m)
  from sentence_match_prefix [OF sentence(3)] obtain r where "m \<noteq> []" "buffer s = m @ r"
    by (auto simp: prefix_def)
  with sentence(4) show ?thesis by simp
qed

lemma consume_rule:
  assumes "I s"
    and "\<And>s s'. I s \<Longrightarrow> buffer s \<noteq> [] \<Longrightarrow> loop_pass mt scb s = Continue s' \<Longrightarrow> I s'"
    and "\<And>s. I s \<Longrightarrow> buffer s \<noteq> [] \<Longrightarrow> loop_pass mt scb s = Break s \<Longrightarrow> Q (Inr ()) s"
    and "\<And>s e. I s \<Longrightarrow> buffer s \<noteq> [] \<Longrightarrow> loop_pass mt scb s = Raised e s \<Longrightarrow> Q (Inl e) s"
    and "\<And>s. I s \<Longrightarrow> buffer s = [] \<Longrightarrow> Q (Inr ()) s"
  shows "\<exists>r s'. consume mt scb s = Some (r, s') \<and> Q r s'"
  using assms(1)
proof (induction "length (buffer s)" arbitrary: s rule: less_induct)
  case less
  show ?case
  proof (cases "buffer s = []")
    case True
    with assms(5) [OF less.prems] show ?thesis by (subst consume.simps) simp
  next
    case False
    show ?thesis
    proof (cases "loop_pass mt scb s")
      case (Continue s1)
      from assms(2) [OF less.prems False Continue] have "I s1" .
      from less.hyps [OF loop_pass_shortens [OF Continue] this]
      obtain r s' where "consume mt scb s1 = Some (r, s')" "Q r s'" by blast
      with False Continue show ?thesis by (subst consume.simps) simp
    next
      case (Break s1)
      with loop_pass_Break [OF Break] assms(3) [OF less.prems False] have "Q (Inr ()) s1" by simp
      with False Break show ?thesis by (subst consume.simps) simp
    next
      case (Raised e s1)
      with loop_pass_Raised [OF Raised] assms(4) [OF less.prems False] have "Q (Inl e) s1"
        by simp
      with False Raised show ?thesis by (subst consume.simps) simp
    qed
  qed
qed

lemma pop_first: "xs \<noteq> [] \<Longrightarrow> pop 0 xs = Inr (tl xs)"
  by (cases xs) (simp_all add: pop_def)

lemma flush_pass_eq:
  "flush_pass scb s =
     (if active_markers s \<noteq> [] then Continue (s\<lparr>active_markers := tl (active_markers s)\<rparr>)
      else Break (call_sentence scb (buffer s) s))"
  by (simp add: flush_pass_def pop_first)

lemma flush_eq:
  "flush scb s =
     Some (Inr (), if buffer s = [] then s
                   else call_sentence scb (buffer s) (s\<lparr>active_markers := []\<rparr>))"
proof (induction "length (active_markers s)" arbitrary: s rule: less_induct)
  case less
  show ?case
  proof (cases "buffer s = []")
    case True
    then show ?thesis by (subst flush.simps) simp
  next
    case False
    show ?thesis
    proof (cases "active_markers s = []")
      case True
      then have e: "s\<lparr>active_markers := []\<rparr> = s" by simp
      from True False have "flush scb s = Some (Inr (), call_sentence scb (buffer s) s)"
        by (subst flush.simps) (simp add: flush_pass_eq)
      with False show ?thesis unfolding e by simp
    next
      case am: False
      let ?s1 = "s\<lparr>active_markers := tl (active_markers s)\<rparr>"
      from am have "length (active_markers ?s1) < length (active_markers s)" by simp
      from less.hyps [OF this] False
      have "flush scb ?s1 = Some (Inr (), call_sentence scb (buffer s) (s\<lparr>active_markers := []\<rparr>))"
        by simp
      with am False show ?thesis by (subst flush.simps) (simp add: flush_pass_eq)
    qed
  qed
qed

section \<open>The invariant\<close>

lemma strip_trimmed: "strip t \<noteq> [] \<Longrightarrow> trimmed (strip t)"
  by (simp add: trimmed_def strip_nonempty_ends)

lemma safe_init: "safe mt init"
  by (simp add: safe_def init_def)

lemma safe_receive: "safe mt s \<Longrightarrow> safe mt (receive chunk s)"
  by (simp add: safe_def receive_def)

lemma safe_call_sentence: "safe mt s \<Longrightarrow> safe mt (call_sentence scb t s)"
  by (auto simp: safe_def call_sentence_calls strip_trimmed split: option.splits if_splits)

lemma safe_Continue:
  assumes "safe mt s" "loop_pass mt scb s = Continue s'"
  shows "safe mt s' \<and> full_text s' = full_text s"
  using assms(2)
proof (cases rule: loop_pass_Continue)
  case (close j st en cb marked)
  from assms(1) close(2) have "take j (active_markers s) @ drop (Suc j) (active_markers s) = []"
    by (simp add: safe_def)
  with close(7) have s': "s' = s\<lparr>buffer := buffer s',
      calls := calls s @ (case cb of None \<Rightarrow> [] | Some c \<Rightarrow> [Marker_call c marked]),
      active_markers := []\<rparr>" by simp
  have "safe mt s'" using assms(1)
    by (subst s') (auto simp: safe_def split: option.splits)
  moreover have "full_text s' = full_text s" by (subst s') simp
  ultimately show ?thesis ..
next
  case (opened st en cb before)
  from find_start_Some [OF opened(2)] have "(st, en, cb) \<in> set (tuples_of mt)" by auto
  with assms(1) have "safe mt s'" by (subst opened(6)) (simp add: safe_def)
  moreover have "full_text s' = full_text s" by (subst opened(6)) simp
  ultimately show ?thesis ..
next
  case (sentence m)
  from safe_call_sentence [OF assms(1), of scb m]
  have "safe mt s'" by (subst sentence(4)) (simp add: safe_def)
  moreover have "full_text s' = full_text s" by (subst sentence(4)) simp
  ultimately show ?thesis ..
qed

lemma safe_loop_pass:
  assumes "safe mt s"
  shows "safe mt (pass_state (loop_pass mt scb s))"
proof (cases "loop_pass mt scb s")
  case (Continue s')
  with safe_Continue [OF assms Continue] show ?thesis by simp
next
  case (Break s')
  with loop_pass_Break [OF Break] assms show ?thesis by simp
next
  case (Raised e s')
  with loop_pass_Raised [OF Raised] assms show ?thesis by simp
qed

lemma safe_process_active_markers:
  assumes "safe mt s"
  shows "safe mt (snd (process_active_markers s))"
proof -
  obtain r s' where p: "process_active_markers s = (r, s')"
    by (cases "process_active_markers s")
  show ?thesis
  proof (cases r)
    case (Inl e)
    with process_active_markers_raise [OF p [unfolded Inl]] p assms show ?thesis by simp
  next
    case (Inr j)
    show ?thesis
    proof (cases "0 \<le> j")
      case False
      with process_active_markers_none [OF p [unfolded Inr]] p assms show ?thesis by simp
    next
      case True
      from process_active_markers_closed [OF p [unfolded Inr] True]
      obtain cb marked where s': "s' = s\<lparr>buffer := buffer s',
          calls := calls s @ (case cb of None \<Rightarrow> [] | Some c \<Rightarrow> [Marker_call c marked])\<rparr>"
        by blast
      have "safe mt s'" using assms by (subst s') (auto simp: safe_def split: option.splits)
      with p show ?thesis by simp
    qed
  qed
qed

lemma safe_flush_pass:
  assumes "safe mt s"
  shows "safe mt (pass_state (flush_pass scb s))"
proof (cases "active_markers s = []")
  case True
  with safe_call_sentence [OF assms] show ?thesis by (simp add: flush_pass_eq)
next
  case False
  with assms have "active_markers s \<noteq> [] \<and> tl (active_markers s) = []"
    by (cases "active_markers s") (simp_all add: safe_def)
  with assms show ?thesis by (simp add: flush_pass_eq safe_def)
qed

lemma reachable_safe: "reachable mt scb s \<Longrightarrow> safe mt s"
proof (induction rule: reachable.induct)
  case reach_init
  show ?case by (rule safe_init)
next
  case (reach_receive s chunk)
  then show ?case by (simp add: safe_receive)
next
  case (reach_markers s)
  then show ?case by (simp add: safe_process_active_markers)
next
  case (reach_loop s)
  then show ?case by (simp add: safe_loop_pass)
next
  case (reach_flush s)
  then show ?case by (simp add: safe_flush_pass)
qed

section \<open>Facts about whole runs\<close>

lemma tokens_nonempty_mem:
  "tokens_nonempty mt \<Longrightarrow> m \<in> set (tuples_of mt) \<Longrightarrow> fst m \<noteq> [] \<and> fst (snd m) \<noteq> []"
  by (auto simp: tokens_nonempty_def list_all_iff)

lemma consume_safe:
  assumes "safe mt s"
  shows "\<exists>r s'. consume mt scb s = Some (r, s') \<and> safe mt s' \<and> full_text s' = full_text s \<and>
           (tokens_nonempty mt \<longrightarrow> r = Inr ())"
proof (rule consume_rule [where I = "\<lambda>x. safe mt x \<and> full_text x = full_text s"])
  show "safe mt s \<and> full_text s = full_text s" using assms by simp
next
  fix x x' assume "safe mt x \<and> full_text x = full_text s" "loop_pass mt scb x = Continue x'"
  with safe_Continue [of mt x scb x'] show "safe mt x' \<and> full_text x' = full_text s" by simp
next
  fix x e
  assume x: "safe mt x \<and> full_text x = full_text s" and r: "loop_pass mt scb x = Raised e x"
  have "\<not> tokens_nonempty mt"
  proof
    assume t: "tokens_nonempty mt"
    from loop_pass_Raised [OF r] x obtain m where
      "m \<in> set (tuples_of mt)" "fst m = [] \<or> fst (snd m) = []"
      by (auto simp: safe_def)
    with tokens_nonempty_mem [OF t this(1)] show False by simp
  qed
  with x show "safe mt x \<and> full_text x = full_text s \<and> (tokens_nonempty mt \<longrightarrow> Inl e = Inr ())"
    by simp
qed simp_all

lemma consume_reachable:
  assumes "reachable mt scb s" "consume mt scb s = Some (r, s')"
  shows "reachable mt scb s'"
proof -
  have "\<exists>r s'. consume mt scb s = Some (r, s') \<and> reachable mt scb s'"
  proof (rule consume_rule [where I = "reachable mt scb"])
    fix x x' assume "reachable mt scb x" "buffer x \<noteq> []" "loop_pass mt scb x = Continue x'"
    with reach_loop [of mt scb x] show "reachable mt scb x'" by simp
  qed (use assms(1) in simp_all)
  with assms(2) show ?thesis by simp
qed

lemma feed_safe:
  assumes "safe mt s"
  shows "\<exists>r s'. feed mt scb chunks s = Some (r, s') \<and> safe mt s' \<and>
           (tokens_nonempty mt \<longrightarrow> r = Inr () \<and> full_text s' = full_text s @ concat chunks)"
  using assms
proof (induction chunks arbitrary: s)
  case Nil
  then show ?case by simp
next
  case (Cons chunk chunks)
  from consume_safe [OF safe_receive [OF Cons.prems], of scb chunk]
  obtain r s1 where c: "consume mt scb (receive chunk s) = Some (r, s1)" "safe mt s1"
    "full_text s1 = full_text s @ chunk" "tokens_nonempty mt \<longrightarrow> r = Inr ()"
    by (auto simp: receive_def)
  show ?case
  proof (cases r)
    case (Inl e)
    with c show ?thesis by auto
  next
    case (Inr u)
    from Cons.IH [OF c(2)] obtain r' s' where "feed mt scb chunks s1 = Some (r', s')" "safe mt s'"
      "tokens_nonempty mt \<longrightarrow> r' = Inr () \<and> full_text s' = full_text s1 @ concat chunks"
      by blast
    with c Inr show ?thesis by simp
  qed
qed

lemma feed_reachable:
  "reachable mt scb s \<Longrightarrow> feed mt scb chunks s = Some (r, s') \<Longrightarrow> reachable mt scb s'"
proof (induction chunks arbitrary: s)
  case Nil
  then show ?case by simp
next
  case (Cons chunk chunks)
  from Cons.prems(1) have rc: "reachable mt scb (receive chunk s)" by (rule reach_receive)
  from Cons.prems(2) obtain r1 s1 where c: "consume mt scb (receive chunk s) = Some (r1, s1)"
    by (cases "consume mt scb (receive chunk s)") auto
  note r1 = consume_reachable [OF rc c]
  show ?case
  proof (cases r1)
    case (Inl e)
    with c Cons.prems(2) r1 show ?thesis by simp
  next
    case (Inr u)
    with c Cons.prems(2) have "feed mt scb chunks s1 = Some (r, s')" by simp
    from Cons.IH [OF r1 this] show ?thesis .
  qed
qed

lemma flush_reachable:
  assumes "reachable mt scb s"
  shows "reachable mt scb (if buffer s = [] then s
           else call_sentence scb (buffer s) (s\<lparr>active_markers := []\<rparr>))"
  using assms
proof (induction "length (active_markers s)" arbitrary: s rule: less_induct)
  case less
  show ?case
  proof (cases "buffer s = []")
    case True
    with less.prems show ?thesis by simp
  next
    case False
    show ?thesis
    proof (cases "active_markers s = []")
      case True
      then have e: "s\<lparr>active_markers := []\<rparr> = s" by simp
      from reach_flush [OF less.prems False] True
      have "reachable mt scb (call_sentence scb (buffer s) s)" by (simp add: flush_pass_eq)
      with False show ?thesis unfolding e by simp
    next
      case am: False
      let ?s1 = "s\<lparr>active_markers := tl (active_markers s)\<rparr>"
      from reach_flush [OF less.prems False] am have "reachable mt scb ?s1"
        by (simp add: flush_pass_eq)
      moreover from am have "length (active_markers ?s1) < length (active_markers s)" by simp
      ultimately show ?thesis using less.hyps [of ?s1] False by simp
    qed
  qed
qed

lemma process_text_stream_run:
  "\<exists>r s. process_text_stream chunks scb mt = Some (r, calls s) \<and> reachable mt scb s \<and>
     (tokens_nonempty mt \<longrightarrow> r = Inr (concat chunks))"
proof -
  from feed_safe [OF safe_init, of mt scb chunks]
  obtain r1 s1 where f: "feed mt scb chunks init = Some (r1, s1)"
    "tokens_nonempty mt \<longrightarrow> r1 = Inr () \<and> full_text s1 = concat chunks"
    by (auto simp: init_def)
  from feed_reachable [OF reach_init f(1)] have r1: "reachable mt scb s1" .
  show ?thesis
  proof (cases r1)
    case (Inl e)
    with f r1 show ?thesis by (auto simp: process_text_stream_def)
  next
    case (Inr u)
    let ?s2 = "if buffer s1 = [] then s1
               else call_sentence scb (buffer s1) (s1\<lparr>active_markers := []\<rparr>)"
    have "process_text_stream chunks scb mt = Some (Inr (full_text ?s2), calls ?s2)"
      using f(1) Inr by (simp add: process_text_stream_def flush_eq)
    moreover have "full_text ?s2 = full_text s1" by simp
    moreover note flush_reachable [OF r1]
    ultimately show ?thesis using f(2) by auto
  qed
qed

lemma trimmed_strip: "trimmed t \<Longrightarrow> strip t = t"
proof -
  assume t: "trimmed t"
  then have 1: "dropWhile is_space t = t" by (cases t) (simp_all add: trimmed_def)
  from t have "\<not> is_space (hd (rev t))" "rev t \<noteq> []" by (simp_all add: trimmed_def hd_rev)
  then have 2: "dropWhile is_space (rev t) = rev t" by (cases "rev t") simp_all
  show ?thesis unfolding strip_def 1 2 by simp
qed

lemmas run_defs =
  process_text_stream_def init_def receive_def consume.simps flush.simps loop_pass_def
  flush_pass_def process_active_markers_def process_new_markers_or_sentences_def
  tuples_of_def str_partition_def pop_def call_sentence_def strip_def is_space_def
  sentence_match_def is_terminator_def at_dollar_def newline_def str_def

lemma str_in_length: "str_in sub s \<Longrightarrow> length sub \<le> length s"
  by (auto simp: str_in_iff)

lemma split_first_first:
  "split_first sep s = Some (b, a) \<Longrightarrow> sep \<noteq> [] \<Longrightarrow> \<not> str_in sep (b @ butlast sep)"
proof (induction s arbitrary: b)
  case Nil
  then show ?case by simp
next
  case (Cons c cs)
  show ?case
  proof (cases "prefix sep (c # cs)")
    case True
    with Cons.prems have "b = []" by simp
    moreover from Cons.prems(2) have "length (butlast sep) < length sep" by simp
    ultimately show ?thesis using str_in_length [of sep "butlast sep"] by auto
  next
    case False
    with Cons.prems obtain b' where b': "split_first sep cs = Some (b', a)" "b = c # b'"
      by auto
    from Cons.IH [OF b'(1) Cons.prems(2)] have ih: "\<not> str_in sep (b' @ butlast sep)" .
    from split_first_Some [OF b'(1)] have "cs = b' @ sep @ a" .
    with Cons.prems(2) have "c # cs = (c # b' @ butlast sep) @ (last sep # a)" by simp
    then have "prefix (c # b' @ butlast sep) (c # cs)" unfolding prefix_def by blast
    with False have "\<not> prefix sep (c # b' @ butlast sep)" using prefix_order.trans by blast
    with ih b'(2) show ?thesis by simp
  qed
qed

lemma flush_pass_shortens:
  "flush_pass scb s = Continue s' \<Longrightarrow> length (active_markers s') < length (active_markers s)"
  by (auto simp: flush_pass_eq split: if_splits)

section \<open>Facts about the sentence pattern\<close>

lemma is_space_newline: "is_space newline"
  by (simp add: is_space_def newline_def)

lemma terminated_prefix_Nil: "\<not> terminated_prefix [] p"
  by (auto simp: terminated_prefix_def)

lemma terminated_prefix_Cons:
  "terminated_prefix (c # cs) p \<longleftrightarrow>
     (\<exists>p'. p = c # p' \<and>
        (terminated_prefix cs p' \<or>
         (is_terminator c \<and> ((p' = [] \<and> cs = []) \<or>
                              (cs \<noteq> [] \<and> p' = [hd cs] \<and> is_space (hd cs))))))"
proof (cases p)
  case Nil
  then show ?thesis by (simp add: terminated_prefix_def)
next
  case (Cons e p')
  show ?thesis
  proof (cases "e = c \<and> prefix p' cs")
    case False
    then have "\<not> terminated_prefix (c # cs) p" using Cons by (auto simp: terminated_prefix_def)
    moreover have "\<not> terminated_prefix cs p'" if "e = c"
      using that False by (simp add: terminated_prefix_def)
    moreover have "\<not> prefix [hd cs] cs \<Longrightarrow> cs = []" by (cases cs) simp_all
    ultimately show ?thesis using Cons False by auto
  next
    case True
    show ?thesis
    proof (cases p')
      case Nil
      with Cons True show ?thesis by (auto simp: terminated_prefix_def)
    next
      case c2: (Cons d p'')
      show ?thesis
      proof (cases p'')
        case Nil
        with Cons True c2 show ?thesis
          by (cases cs) (auto simp: terminated_prefix_def)
      next
        case (Cons d' p''')
        with \<open>p = e # p'\<close> True c2 show ?thesis
          by (auto simp: terminated_prefix_def)
      qed
    qed
  qed
qed

lemma terminated_prefix_nonempty: "terminated_prefix buf p \<Longrightarrow> p \<noteq> []"
  by (auto simp: terminated_prefix_def)

lemma match_terminated_None: "match_terminated s = None \<Longrightarrow> \<not> terminated_prefix s p"
proof (induction s arbitrary: p)
  case Nil
  show ?case by (rule terminated_prefix_Nil)
next
  case (Cons c cs)
  from Cons.prems have 1: "\<not> (is_terminator c \<and> cs \<noteq> [] \<and> is_space (hd cs))"
    and 2: "\<not> (is_terminator c \<and> at_dollar cs)" and 3: "match_terminated cs = None"
    by (auto split: if_splits)
  from 2 have "\<not> (is_terminator c \<and> cs = [])" by (auto simp: at_dollar_def)
  with 1 Cons.IH [OF 3] show ?case by (auto simp: terminated_prefix_Cons)
qed

lemma match_terminated_Some:
  "match_terminated s = Some m \<Longrightarrow>
     terminated_prefix s m \<and> (\<forall>p. terminated_prefix s p \<longrightarrow> length m \<le> length p)"
proof (induction s arbitrary: m)
  case Nil
  then show ?case by simp
next
  case (Cons c cs)
  show ?case
  proof (cases "is_terminator c \<and> cs \<noteq> [] \<and> is_space (hd cs)")
    case True
    with Cons.prems have m: "m = [c, hd cs]" by simp
    with True have "terminated_prefix (c # cs) m" by (auto simp: terminated_prefix_Cons)
    moreover have "length m \<le> length p" if "terminated_prefix (c # cs) p" for p
      using that True m terminated_prefix_nonempty [of cs]
      by (auto simp: terminated_prefix_Cons Suc_le_eq)
    ultimately show ?thesis by blast
  next
    case F1: False
    show ?thesis
    proof (cases "is_terminator c \<and> at_dollar cs")
      case True
      with F1 Cons.prems have m: "m = [c]" by (auto split: if_splits)
      from True F1 have "cs = []" by (auto simp: at_dollar_def is_space_newline)
      with True m have "terminated_prefix (c # cs) m" by (auto simp: terminated_prefix_Cons)
      moreover have "length m \<le> length p" if "terminated_prefix (c # cs) p" for p
        using that m by (auto simp: terminated_prefix_Cons)
      ultimately show ?thesis by blast
    next
      case False
      with F1 Cons.prems obtain m' where m': "match_terminated cs = Some m'" "m = c # m'"
        by auto
      from False have "\<not> (is_terminator c \<and> cs = [])" by (auto simp: at_dollar_def)
      with Cons.IH [OF m'(1)] m'(2) F1 show ?thesis by (auto simp: terminated_prefix_Cons)
    qed
  qed
qed

lemma sentence_match_cases:
  "(case sentence_match buf of
      Some m \<Rightarrow>
        (terminated_prefix buf m \<and> (\<forall>p. terminated_prefix buf p \<longrightarrow> length m \<le> length p)) \<or>
        ((\<forall>p. \<not> terminated_prefix buf p) \<and> m = [newline] \<and> prefix [newline] buf)
    | None \<Rightarrow> (\<forall>p. \<not> terminated_prefix buf p) \<and> \<not> prefix [newline] buf)"
proof (cases "match_terminated buf")
  case (Some m)
  with match_terminated_Some [OF Some] show ?thesis by (simp add: sentence_match_def)
next
  case None
  from match_terminated_None [OF None] have np: "\<forall>p. \<not> terminated_prefix buf p" by blast
  have "sentence_match buf = (if prefix [newline] buf then Some [newline] else None)"
    by (simp add: sentence_match_def None split: list.splits)
  with np show ?thesis by simp
qed

section \<open>Facts about strip\<close>

lemma strip_blank: "strip s = [] \<longleftrightarrow> list_all is_space s"
proof -
  let ?d = "dropWhile is_space s"
  have "strip s = [] \<longleftrightarrow> (\<forall>x \<in> set ?d. is_space x)"
    by (simp add: strip_def)
  also have "\<dots> \<longleftrightarrow> ?d = []"
  proof
    assume a: "\<forall>x \<in> set ?d. is_space x"
    show "?d = []"
    proof (rule ccontr)
      assume "?d \<noteq> []"
      then have "\<not> is_space (hd ?d)" "hd ?d \<in> set ?d" by (simp_all add: hd_dropWhile)
      with a show False by blast
    qed
  next
    assume e: "?d = []"
    show "\<forall>x \<in> set ?d. is_space x" unfolding e by simp
  qed
  also have "\<dots> \<longleftrightarrow> list_all is_space s"
    by (simp only: dropWhile_eq_Nil_conv list_all_iff)
  finally show ?thesis .
qed

lemma strip_decomp:
  "\<exists>l r. s = l @ strip s @ r \<and> list_all is_space l \<and> list_all is_space r"
proof -
  let ?l = "takeWhile is_space s"
  let ?d = "dropWhile is_space s"
  let ?r = "rev (takeWhile is_space (rev ?d))"
  have "rev (takeWhile is_space (rev ?d) @ dropWhile is_space (rev ?d)) = ?d"
    by (simp only: takeWhile_dropWhile_id rev_rev_ident)
  then have "rev (dropWhile is_space (rev ?d)) @ ?r = ?d" by (simp only: rev_append)
  then have d: "?d = strip s @ ?r" by (simp only: strip_def)
  have "s = ?l @ ?d" by simp
  with d have "s = ?l @ strip s @ ?r" by simp
  moreover have "list_all is_space ?l" by (auto simp: list_all_iff dest: set_takeWhileD)
  moreover have "list_all is_space ?r" by (auto simp: list_all_iff dest: set_takeWhileD)
  ultimately show ?thesis by blast
qed

text \<open>
  The code does not check the tokens. With an empty start-token, which the data model
  excludes, \<open>'' in buffer\<close> is true and \<open>buffer.partition('')\<close> raises
  \<open>ValueError\<close>.
\<close>

lemma empty_start_token_raises:
  "process_text_stream [str ''a''] (None :: string option) (Some [([], str ''x'', None)]) =
     Some (Inl ValueError, [])"
  by (simp add: run_defs)

section \<open>The properties of the specification\<close>



text \<open>
  C2 fails on the code: the alternative \<open>\n\<close> of the pattern is anchored at the start of
  the buffer, so a newline inside the buffer ends nothing. For \<open>"line one\nline two"\<close>
  the sentence callback is not invoked twice, with \<open>"line one"\<close> and \<open>"line two"\<close>.
\<close>

theorem newline_example_counterexample:
  "process_text_stream [str ''line one\<newline>line two''] (Some ''say'') None =
     Some (Inr (str ''line one\<newline>line two''),
           [Sentence_call ''say'' (str ''line one\<newline>line two'')]) \<and>
   [Sentence_call ''say'' (str ''line one\<newline>line two'')] \<noteq>
     [Sentence_call ''say'' (str ''line one''), Sentence_call ''say'' (str ''line two'')]"
  by (simp add: run_defs)

text \<open>
  C2, as amended. For the input \<open>"line one\nline two"\<close> (one fragment, no markers) the
  newline does not terminate a sentence unit: the pattern does not match the buffer,
  nothing is emitted while the stream is read, and the sentence callback is invoked exactly
  once, by the final flush, with \<open>"line one\nline two"\<close>.
\<close>

theorem newline_example:
  "sentence_match (str ''line one\<newline>line two'') = None \<and>
   feed None (Some say) [str ''line one\<newline>line two''] init =
     Some (Inr (), \<lparr>full_text = str ''line one\<newline>line two'',
                    buffer = str ''line one\<newline>line two'',
                    active_markers = [], calls = []\<rparr>) \<and>
   process_text_stream [str ''line one\<newline>line two''] (Some say) None =
     Some (Inr (str ''line one\<newline>line two''),
           [Sentence_call say (str ''line one\<newline>line two'')])"
  by (simp add: run_defs)

text \<open>
  C3 fails on the code. In \<open>process_active_markers\<close> the assignment \<open>buffer = rest\<close> and
  the \<open>return i\<close> are inside \<open>if marked_text.strip():\<close>, so an end-token found after
  empty or blank text neither closes the marker nor advances the buffer: the pass
  leaves the loop with the state unchanged, the same happens after every later chunk, and
  at the end of the stream the end-token and everything after it, a later tagged region
  included, go to the sentence callback in one piece.
\<close>

theorem blank_region_never_closes:
  "loop_pass (Some [(str ''<tag>'', str ''</tag>'', Some cb)]) (Some say)
     \<lparr>full_text = str ''<tag></tag>rest. '', buffer = str ''</tag>rest. '',
      active_markers = [(str ''<tag>'', str ''</tag>'', Some cb)], calls = []\<rparr> =
   Break \<lparr>full_text = str ''<tag></tag>rest. '', buffer = str ''</tag>rest. '',
      active_markers = [(str ''<tag>'', str ''</tag>'', Some cb)], calls = []\<rparr> \<and>
   process_text_stream [str ''<tag></tag>rest. '', str ''<tag>secret</tag>''] (Some say)
     (Some [(str ''<tag>'', str ''</tag>'', Some cb)]) =
   Some (Inr (str ''<tag></tag>rest. <tag>secret</tag>''),
         [Sentence_call say (str ''</tag>rest. <tag>secret</tag>'')])"
  by (simp add: run_defs)

text \<open>
  C4. If the stream ends while a marker is still open and the buffer is not empty, the
  final loop discards the marker without invoking its callback, and the sentence callback,
  if there is one, receives the remaining buffer without its leading and trailing
  whitespace, unless nothing but whitespace remains; no other call is made. For the single
  fragment \<open>"<tag>partial"\<close> the marker's callback is never invoked and the sentence
  callback receives \<open>"partial"\<close>, without the tag; for \<open>"<tag> partial\n"\<close> it
  receives \<open>"partial"\<close> as well.
\<close>

theorem unterminated_marker_is_flushed_as_text:
  "(feed marker_tuples sentence_callback text_stream init = Some (Inr (), s) \<longrightarrow>
    active_markers s \<noteq> [] \<longrightarrow> buffer s \<noteq> [] \<longrightarrow>
      (\<exists>s'. flush sentence_callback s = Some (Inr (), s') \<and> active_markers s' = [] \<and>
         process_text_stream text_stream sentence_callback marker_tuples =
           Some (Inr (full_text s), calls s') \<and>
         (case sentence_callback of
            None \<Rightarrow> calls s' = calls s
          | Some c \<Rightarrow>
              if list_all is_space (buffer s) then calls s' = calls s
              else (\<exists>l t r. buffer s = l @ t @ r \<and> list_all is_space l \<and>
                      list_all is_space r \<and> trimmed t \<and>
                      calls s' = calls s @ [Sentence_call c t])))) \<and>
   feed (Some [(str ''<tag>'', str ''</tag>'', Some cb)]) (Some say) [str ''<tag>partial''] init =
     Some (Inr (), \<lparr>full_text = str ''<tag>partial'', buffer = str ''partial'',
                    active_markers = [(str ''<tag>'', str ''</tag>'', Some cb)], calls = []\<rparr>) \<and>
   process_text_stream [str ''<tag>partial''] (Some say)
     (Some [(str ''<tag>'', str ''</tag>'', Some cb)]) =
   Some (Inr (str ''<tag>partial''), [Sentence_call say (str ''partial'')]) \<and>
   \<not> str_in (str ''<tag>'') (str ''partial'') \<and>
   process_text_stream [str ''<tag> partial\<newline>''] (Some say)
     (Some [(str ''<tag>'', str ''</tag>'', Some cb)]) =
   Some (Inr (str ''<tag> partial\<newline>''), [Sentence_call say (str ''partial'')])"
proof (intro conjI impI)
  assume f: "feed marker_tuples sentence_callback text_stream init = Some (Inr (), s)"
    and a: "active_markers s \<noteq> []" and b: "buffer s \<noteq> []"
  let ?s' = "call_sentence sentence_callback (buffer s) (s\<lparr>active_markers := []\<rparr>)"
  from b have fl: "flush sentence_callback s = Some (Inr (), ?s')" by (simp add: flush_eq)
  have am: "active_markers ?s' = []" by simp
  from f fl have run: "process_text_stream text_stream sentence_callback marker_tuples =
           Some (Inr (full_text s), calls ?s')"
    by (simp add: process_text_stream_def)
  have c: "calls ?s' = calls s @
     (case sentence_callback of None \<Rightarrow> []
      | Some c \<Rightarrow> if strip (buffer s) \<noteq> [] then [Sentence_call c (strip (buffer s))] else [])"
    by (simp add: call_sentence_calls)
  have "case sentence_callback of
            None \<Rightarrow> calls ?s' = calls s
          | Some c \<Rightarrow>
              if list_all is_space (buffer s) then calls ?s' = calls s
              else (\<exists>l t r. buffer s = l @ t @ r \<and> list_all is_space l \<and>
                      list_all is_space r \<and> trimmed t \<and>
                      calls ?s' = calls s @ [Sentence_call c t])"
  proof (cases sentence_callback)
    case None
    with c show ?thesis by simp
  next
    case (Some cb')
    show ?thesis
    proof (cases "list_all is_space (buffer s)")
      case True
      with c Some strip_blank [of "buffer s"] show ?thesis by simp
    next
      case False
      with strip_blank [of "buffer s"] have ne: "strip (buffer s) \<noteq> []" by simp
      from strip_decomp [of "buffer s"] obtain l r where
        "buffer s = l @ strip (buffer s) @ r" "list_all is_space l" "list_all is_space r"
        by blast
      moreover note strip_trimmed [OF ne]
      moreover from c Some ne
      have "calls ?s' = calls s @ [Sentence_call cb' (strip (buffer s))]" by simp
      ultimately have "\<exists>l t r. buffer s = l @ t @ r \<and> list_all is_space l \<and>
                      list_all is_space r \<and> trimmed t \<and>
                      calls ?s' = calls s @ [Sentence_call cb' t]" by blast
      with Some False show ?thesis by simp
    qed
  qed
  with fl am run show "\<exists>s'. flush sentence_callback s = Some (Inr (), s') \<and> active_markers s' = [] \<and>
         process_text_stream text_stream sentence_callback marker_tuples =
           Some (Inr (full_text s), calls s') \<and>
         (case sentence_callback of
            None \<Rightarrow> calls s' = calls s
          | Some c \<Rightarrow>
              if list_all is_space (buffer s) then calls s' = calls s
              else (\<exists>l t r. buffer s = l @ t @ r \<and> list_all is_space l \<and>
                      list_all is_space r \<and> trimmed t \<and>
                      calls s' = calls s @ [Sentence_call c t]))"
    by blast
next
  show "feed (Some [(str ''<tag>'', str ''</tag>'', Some cb)]) (Some say) [str ''<tag>partial''] init =
     Some (Inr (), \<lparr>full_text = str ''<tag>partial'', buffer = str ''partial'',
                    active_markers = [(str ''<tag>'', str ''</tag>'', Some cb)], calls = []\<rparr>)"
    by (simp add: run_defs)
next
  show "process_text_stream [str ''<tag>partial''] (Some say)
     (Some [(str ''<tag>'', str ''</tag>'', Some cb)]) =
   Some (Inr (str ''<tag>partial''), [Sentence_call say (str ''partial'')])"
    by (simp add: run_defs)
next
  show "\<not> str_in (str ''<tag>'') (str ''partial'')" by (simp add: str_def)
next
  show "process_text_stream [str ''<tag> partial\<newline>''] (Some say)
     (Some [(str ''<tag>'', str ''</tag>'', Some cb)]) =
   Some (Inr (str ''<tag> partial\<newline>''), [Sentence_call say (str ''partial'')])"
    by (simp add: run_defs)
qed

theorem unterminated_marker_is_flushed_as_text_witness:
  "feed (Some [(str ''<tag>'', str ''</tag>'', Some ''cb'')]) (Some ''say'')
     [str ''<tag> partial\<newline>''] init =
     Some (Inr (), \<lparr>full_text = str ''<tag> partial\<newline>'', buffer = str '' partial\<newline>'',
                    active_markers = [(str ''<tag>'', str ''</tag>'', Some ''cb'')],
                    calls = []\<rparr>) \<and>
   str '' partial\<newline>'' \<noteq> [] \<and> \<not> list_all is_space (str '' partial\<newline>'') \<and>
   process_text_stream [str ''<tag> partial\<newline>''] (Some ''say'')
     (Some [(str ''<tag>'', str ''</tag>'', Some ''cb'')]) =
     Some (Inr (str ''<tag> partial\<newline>''), [Sentence_call ''say'' (str ''partial'')]) \<and>
   str '' partial\<newline>'' = str '' '' @ str ''partial'' @ str ''\<newline>'' \<and>
   list_all is_space (str '' '') \<and> list_all is_space (str ''\<newline>'') \<and>
   trimmed (str ''partial'')"
proof -
  let ?mt = "Some [(str ''<tag>'', str ''</tag>'', Some ''cb'')]"
  let ?s = "\<lparr>full_text = str ''<tag> partial\<newline>'', buffer = str '' partial\<newline>'',
      active_markers = [(str ''<tag>'', str ''</tag>'', Some ''cb'')],
      calls = ([] :: string call list)\<rparr>"
  have f: "feed ?mt (Some ''say'') [str ''<tag> partial\<newline>''] init = Some (Inr (), ?s)"
    by (simp add: run_defs)
  have 1: "active_markers ?s \<noteq> []" by simp
  have 2: "buffer ?s \<noteq> []" by (simp add: str_def)
  have 3: "\<not> list_all is_space (buffer ?s)" by (simp add: str_def is_space_def)
  have run: "process_text_stream [str ''<tag> partial\<newline>''] (Some ''say'') ?mt =
     Some (Inr (str ''<tag> partial\<newline>''), [Sentence_call ''say'' (str ''partial'')])"
    by (simp add: run_defs)
  note th = unterminated_marker_is_flushed_as_text
    [of ?mt "Some ''say''" "[str ''<tag> partial\<newline>'']" ?s "''cb''" "''say''"]
  have d: "str '' partial\<newline>'' = str '' '' @ str ''partial'' @ str ''\<newline>''"
    "list_all is_space (str '' '')" "list_all is_space (str ''\<newline>'')"
    by (simp_all add: str_def is_space_def)
  from th [THEN conjunct1, rule_format, OF f 1 2] show ?thesis
  proof (elim exE conjE)
    fix s'
    assume p: "process_text_stream [str ''<tag> partial\<newline>''] (Some ''say'') ?mt =
       Some (Inr (full_text ?s), calls s')"
      and q0: "case Some ''say'' of
         None \<Rightarrow> calls s' = calls ?s
       | Some c \<Rightarrow>
           if list_all is_space (buffer ?s) then calls s' = calls ?s
           else (\<exists>l t r. buffer ?s = l @ t @ r \<and> list_all is_space l \<and>
                   list_all is_space r \<and> trimmed t \<and>
                   calls s' = calls ?s @ [Sentence_call c t])"
    from q0 have "if list_all is_space (buffer ?s) then calls s' = calls ?s
       else (\<exists>l t r. buffer ?s = l @ t @ r \<and> list_all is_space l \<and>
               list_all is_space r \<and> trimmed t \<and>
               calls s' = calls ?s @ [Sentence_call ''say'' t])"
      by (simp only: option.case)
    with 3 have "\<exists>l t r. buffer ?s = l @ t @ r \<and> list_all is_space l \<and>
               list_all is_space r \<and> trimmed t \<and>
               calls s' = calls ?s @ [Sentence_call ''say'' t]"
      by (simp only: if_False)
    then obtain t where t: "trimmed t" "calls s' = calls ?s @ [Sentence_call ''say'' t]"
      by (elim exE conjE)
    from p run t(2) have "t = str ''partial''" by simp
    with t(1) have "trimmed (str ''partial'')" by simp
    with f 2 3 run d show ?thesis by simp
  qed
qed

text \<open>
  C5 fails on the code. The prefix extracted from \<open>"a. b. c"\<close> is \<open>"a. "\<close>, although the
  longer prefix \<open>"a. b."\<close> also ends in a terminator followed by whitespace; and nothing is
  extracted from \<open>"ab\ncd"\<close>, although \<open>"ab\n"\<close> is a run of characters up to and
  including a newline.
\<close>

theorem longest_prefix_counterexample:
  "loop_pass None (Some ''say'')
     \<lparr>full_text = str ''a. b. c'', buffer = str ''a. b. c'', active_markers = [], calls = []\<rparr> =
   Continue \<lparr>full_text = str ''a. b. c'', buffer = str ''b. c'', active_markers = [],
             calls = [Sentence_call ''say'' (str ''a.'')]\<rparr> \<and>
   sentence_match (str ''a. b. c'') = Some (str ''a. '') \<and>
   spec_unit (str ''a. b. c'') (str ''a. b.'') \<and>
   length (str ''a. '') < length (str ''a. b.'') \<and>
   loop_pass None (Some ''say'')
     \<lparr>full_text = str ''ab\<newline>cd'', buffer = str ''ab\<newline>cd'', active_markers = [],
      calls = []\<rparr> =
   Break \<lparr>full_text = str ''ab\<newline>cd'', buffer = str ''ab\<newline>cd'', active_markers = [],
          calls = []\<rparr> \<and>
   spec_unit (str ''ab\<newline>cd'') (str ''ab\<newline>'')"
  by (simp add: run_defs spec_unit_def)

text \<open>
  C5, as amended. When no marker is active and no marker start-token is in the buffer, the
  sentence splitter extracts the shortest prefix of the buffer that ends in \<open>.\<close>, \<open>!\<close> or
  \<open>?\<close> followed by the end of the buffer or by one whitespace character, which belongs to
  the prefix. When the buffer has no such prefix, it extracts a single newline if the
  buffer starts with one, and otherwise nothing, and the pass leaves the loop. The text
  extracted goes, stripped and if not empty, to the sentence callback.
\<close>

theorem sentence_splitter_extracts_shortest_prefix:
  assumes "active_markers s = []"
    and "\<forall>m \<in> set (tuples_of marker_tuples). \<not> str_in (fst m) (buffer s)"
  shows "(case sentence_match (buffer s) of
            Some m \<Rightarrow>
              loop_pass marker_tuples sentence_callback s =
                Continue ((call_sentence sentence_callback m s)
                            \<lparr>buffer := drop (length m) (buffer s)\<rparr>) \<and>
              prefix m (buffer s) \<and>
              ((terminated_prefix (buffer s) m \<and>
                (\<forall>p. terminated_prefix (buffer s) p \<longrightarrow> length m \<le> length p)) \<or>
               ((\<forall>p. \<not> terminated_prefix (buffer s) p) \<and> m = [newline]))
          | None \<Rightarrow>
              loop_pass marker_tuples sentence_callback s = Break s \<and>
              (\<forall>p. \<not> terminated_prefix (buffer s) p) \<and> \<not> prefix [newline] (buffer s))"
proof -
  from assms(2) have f: "find_start (tuples_of marker_tuples) (buffer s) = None"
    by (simp add: find_start_None)
  note c = sentence_match_cases [of "buffer s"]
  show ?thesis
  proof (cases "sentence_match (buffer s)")
    case None
    with c assms(1) pnms_sentence [OF f, of sentence_callback] show ?thesis
      by (simp add: loop_pass_def)
  next
    case (Some m)
    with sentence_match_prefix [OF Some] c assms(1) pnms_sentence [OF f, of sentence_callback]
    show ?thesis by (auto simp: loop_pass_def)
  qed
qed

theorem sentence_splitter_extracts_shortest_prefix_witness:
  "active_markers \<lparr>full_text = str ''a. b. c'', buffer = str ''a. b. c'', active_markers = [],
      calls = ([] :: string call list)\<rparr> = [] \<and>
   \<not> str_in (str ''<t>'') (str ''a. b. c'') \<and>
   sentence_match (str ''a. b. c'') = Some (str ''a. '') \<and>
   terminated_prefix (str ''a. b. c'') (str ''a. b. '') \<and>
   length (str ''a. '') \<le> length (str ''a. b. '') \<and>
   loop_pass (Some [(str ''<t>'', str ''</t>'', Some ''cb'')]) (Some ''say'')
     \<lparr>full_text = str ''a. b. c'', buffer = str ''a. b. c'', active_markers = [], calls = []\<rparr> =
   Continue \<lparr>full_text = str ''a. b. c'', buffer = str ''b. c'', active_markers = [],
             calls = [Sentence_call ''say'' (str ''a.'')]\<rparr>"
proof -
  let ?s = "\<lparr>full_text = str ''a. b. c'', buffer = str ''a. b. c'', active_markers = [],
      calls = ([] :: string call list)\<rparr>"
  let ?mt = "Some [(str ''<t>'', str ''</t>'', Some ''cb'')]"
  have 1: "active_markers ?s = []" by simp
  have 2: "\<forall>m \<in> set (tuples_of ?mt). \<not> str_in (fst m) (buffer ?s)"
    by (simp add: tuples_of_def str_def)
  have 3: "sentence_match (buffer ?s) = Some (str ''a. '')" by (simp add: run_defs)
  have 4: "terminated_prefix (buffer ?s) (str ''a. b. '')"
    by (simp add: terminated_prefix_def str_def is_terminator_def is_space_def)
  have 5: "\<not> (\<forall>p. \<not> terminated_prefix (buffer ?s) p)" using 4 by blast
  from sentence_splitter_extracts_shortest_prefix [OF 1 2, of "Some ''say''"] 3 5
  have l: "loop_pass ?mt (Some ''say'') ?s =
      Continue ((call_sentence (Some ''say'') (str ''a. '') ?s)
                  \<lparr>buffer := drop (length (str ''a. '')) (buffer ?s)\<rparr>)"
    and m: "\<forall>p. terminated_prefix (buffer ?s) p \<longrightarrow> length (str ''a. '') \<le> length p"
    by auto
  from m 4 have 6: "length (str ''a. '') \<le> length (str ''a. b. '')" by blast
  from l have 7: "loop_pass ?mt (Some ''say'') ?s =
     Continue \<lparr>full_text = str ''a. b. c'', buffer = str ''b. c'', active_markers = [],
             calls = [Sentence_call ''say'' (str ''a.'')]\<rparr>"
    by (simp add: call_sentence_def strip_def is_space_def str_def)
  from 2 have 8: "\<not> str_in (str ''<t>'') (str ''a. b. c'')" by (simp add: tuples_of_def)
  from 1 3 4 6 7 8 show ?thesis by simp
qed

text \<open>
  C6. Whenever no marker is active and a registered start-token occurs in the buffer, the
  pass opens the first marker spec, in the caller's order, whose start-token occurs
  anywhere in the buffer, wherever in the buffer the other start-tokens are: the buffer
  loses everything up to and including the first occurrence of that start-token, the spec
  becomes the only active marker, and no callback is invoked. The start-token of a marker
  spec is a non-empty string.
\<close>

theorem first_marker_in_caller_order_opens:
  assumes "active_markers s = []"
    and "marker_tuples = Some (pre @ (start, endm, callback) # post)"
    and "\<forall>m \<in> set pre. \<not> str_in (fst m) (buffer s)"
    and "str_in start (buffer s)"
    and "start \<noteq> []"
  shows "\<exists>before rest.
           buffer s = before @ start @ rest \<and> \<not> str_in start (before @ butlast start) \<and>
           loop_pass marker_tuples sentence_callback s =
             Continue (s\<lparr>buffer := rest, active_markers := [(start, endm, callback)]\<rparr>) \<and>
           calls (s\<lparr>buffer := rest, active_markers := [(start, endm, callback)]\<rparr>) = calls s"
proof -
  from assms(2) have t: "tuples_of marker_tuples = pre @ (start, endm, callback) # post"
    by (simp add: tuples_of_def)
  from find_start_first [OF t assms(4,3)]
  have f: "find_start (tuples_of marker_tuples) (buffer s) = Some (start, endm, callback)" .
  from assms(4) obtain before rest where sf: "split_first start (buffer s) = Some (before, rest)"
    using split_first_None [of start "buffer s"] by (cases "split_first start (buffer s)") auto
  from pnms_marker [OF f, of sentence_callback] assms(1,5) sf
  have "loop_pass marker_tuples sentence_callback s =
          Continue (s\<lparr>buffer := rest, active_markers := [(start, endm, callback)]\<rparr>)"
    by (simp add: loop_pass_def)
  with split_first_Some [OF sf] split_first_first [OF sf assms(5)] show ?thesis by auto
qed

theorem first_marker_in_caller_order_opens_witness:
  "active_markers \<lparr>full_text = str ''x<a>y<b>z'', buffer = str ''x<a>y<b>z'',
       active_markers = [], calls = ([] :: string call list)\<rparr> = [] \<and>
   \<not> str_in (str ''<c>'') (str ''x<a>y<b>z'') \<and>
   str_in (str ''<b>'') (str ''x<a>y<b>z'') \<and> str ''<b>'' \<noteq> [] \<and>
   loop_pass (Some [(str ''<c>'', str ''</c>'', Some ''c''), (str ''<b>'', str ''</b>'', Some ''b''),
                    (str ''<a>'', str ''</a>'', Some ''a'')]) (Some ''say'')
     \<lparr>full_text = str ''x<a>y<b>z'', buffer = str ''x<a>y<b>z'', active_markers = [],
      calls = []\<rparr> =
   Continue \<lparr>full_text = str ''x<a>y<b>z'', buffer = str ''z'',
      active_markers = [(str ''<b>'', str ''</b>'', Some ''b'')], calls = []\<rparr>"
proof -
  let ?s = "\<lparr>full_text = str ''x<a>y<b>z'', buffer = str ''x<a>y<b>z'',
       active_markers = [], calls = ([] :: string call list)\<rparr>"
  let ?pre = "[(str ''<c>'', str ''</c>'', Some ''c'')]"
  let ?post = "[(str ''<a>'', str ''</a>'', Some ''a'')]"
  have 1: "active_markers ?s = []" by simp
  have 2: "Some [(str ''<c>'', str ''</c>'', Some ''c''), (str ''<b>'', str ''</b>'', Some ''b''),
                    (str ''<a>'', str ''</a>'', Some ''a'')] =
           Some (?pre @ (str ''<b>'', str ''</b>'', Some ''b'') # ?post)" by simp
  have 3: "\<forall>m \<in> set ?pre. \<not> str_in (fst m) (buffer ?s)" by (simp add: str_def)
  have 4: "str_in (str ''<b>'') (buffer ?s)" by (simp add: str_def)
  have 5: "str ''<b>'' \<noteq> []" by (simp add: str_def)
  from first_marker_in_caller_order_opens [OF 1 2 3 4 5, of "Some ''say''"]
  obtain before rest where
    b: "buffer ?s = before @ str ''<b>'' @ rest"
       "\<not> str_in (str ''<b>'') (before @ butlast (str ''<b>''))"
    and l: "loop_pass (Some [(str ''<c>'', str ''</c>'', Some ''c''), (str ''<b>'', str ''</b>'', Some ''b''),
                    (str ''<a>'', str ''</a>'', Some ''a'')]) (Some ''say'') ?s =
       Continue (?s\<lparr>buffer := rest, active_markers := [(str ''<b>'', str ''</b>'', Some ''b'')]\<rparr>)"
    by blast
  have "loop_pass (Some [(str ''<c>'', str ''</c>'', Some ''c''), (str ''<b>'', str ''</b>'', Some ''b''),
                    (str ''<a>'', str ''</a>'', Some ''a'')]) (Some ''say'') ?s =
   Continue \<lparr>full_text = str ''x<a>y<b>z'', buffer = str ''z'',
      active_markers = [(str ''<b>'', str ''</b>'', Some ''b'')], calls = []\<rparr>"
    by (simp add: run_defs)
  moreover from 3 have "\<not> str_in (str ''<c>'') (str ''x<a>y<b>z'')" by simp
  ultimately show ?thesis using 1 4 5 l by simp
qed

text \<open>
  C7. For the single fragment \<open>"<tag>secret</tag>rest of text."\<close> with the marker spec
  \<open>("<tag>", "</tag>", cb)\<close>, \<open>cb\<close> is invoked exactly once, with \<open>"secret"\<close>, then the
  sentence callback is invoked exactly once, with \<open>"rest of text."\<close>; neither argument
  contains \<open>"<tag>"\<close> or \<open>"</tag>"\<close>.
\<close>

theorem tagged_region_example:
  "process_text_stream [str ''<tag>secret</tag>rest of text.''] (Some say)
     (Some [(str ''<tag>'', str ''</tag>'', Some cb)]) =
   Some (Inr (str ''<tag>secret</tag>rest of text.''),
         [Marker_call cb (str ''secret''), Sentence_call say (str ''rest of text.'')]) \<and>
   \<not> str_in (str ''<tag>'') (str ''secret'') \<and> \<not> str_in (str ''</tag>'') (str ''secret'') \<and>
   \<not> str_in (str ''<tag>'') (str ''rest of text.'') \<and>
   \<not> str_in (str ''</tag>'') (str ''rest of text.'')"
  by (simp add: run_defs)

text \<open>
  C8. For every input stream and marker configuration the call ends, and every invocation
  of the sentence callback, while streaming or at the final flush, received a string that
  is not empty and has no leading or trailing whitespace (stripping it changes nothing).
\<close>

theorem sentence_callback_receives_trimmed_text:
  "\<exists>r cs. process_text_stream text_stream sentence_callback marker_tuples = Some (r, cs) \<and>
     (\<forall>c t. Sentence_call c t \<in> set cs \<longrightarrow> trimmed t \<and> strip t = t)"
proof -
  from process_text_stream_run [of text_stream sentence_callback marker_tuples]
  obtain r s where
    run: "process_text_stream text_stream sentence_callback marker_tuples = Some (r, calls s)"
    and "reachable marker_tuples sentence_callback s"
    by blast
  from reachable_safe [OF this(2)]
  have "\<forall>c t. Sentence_call c t \<in> set (calls s) \<longrightarrow> trimmed t" by (simp add: safe_def)
  with run show ?thesis by (auto simp: trimmed_strip)
qed

theorem sentence_callback_receives_trimmed_text_witness:
  "Sentence_call ''say'' (str ''Hi.'') \<in> set [Sentence_call ''say'' (str ''Hi.'')] \<and>
   process_text_stream [str '' Hi. there''] (Some ''say'') None =
     Some (Inr (str '' Hi. there''), [Sentence_call ''say'' (str ''Hi.''),
                                      Sentence_call ''say'' (str ''there'')]) \<and>
   trimmed (str ''Hi.'') \<and> strip (str ''Hi.'') = str ''Hi.''"
proof -
  have e: "process_text_stream [str '' Hi. there''] (Some ''say'') None =
     Some (Inr (str '' Hi. there''), [Sentence_call ''say'' (str ''Hi.''),
                                      Sentence_call ''say'' (str ''there'')])"
    by (simp add: run_defs)
  from sentence_callback_receives_trimmed_text [of "[str '' Hi. there'']" "Some ''say''" None]
  obtain r cs where "process_text_stream [str '' Hi. there''] (Some ''say'') None = Some (r, cs)"
    and p: "\<forall>c t. Sentence_call c t \<in> set cs \<longrightarrow> trimmed t \<and> strip t = t"
    by blast
  with e have "cs = [Sentence_call ''say'' (str ''Hi.''), Sentence_call ''say'' (str ''there'')]"
    by simp
  with p have "trimmed (str ''Hi.'') \<and> strip (str ''Hi.'') = str ''Hi.''" by simp
  with e show ?thesis by simp
qed

text \<open>
  C9. In every state of a call to \<open>process_text_stream\<close> the list of active markers
  holds at most one element; a pass of the consume loop that makes the list longer
  started from the empty list and leaves exactly one marker in it.
\<close>

theorem at_most_one_active_marker:
  "(reachable marker_tuples sentence_callback s \<longrightarrow> length (active_markers s) \<le> 1) \<and>
   (loop_pass marker_tuples sentence_callback x = Continue x' \<longrightarrow>
    length (active_markers x) < length (active_markers x') \<longrightarrow>
      active_markers x = [] \<and> length (active_markers x') = 1)"
proof (intro conjI impI)
  assume "reachable marker_tuples sentence_callback s"
  from reachable_safe [OF this] show "length (active_markers s) \<le> 1" by (simp add: safe_def)
next
  assume c: "loop_pass marker_tuples sentence_callback x = Continue x'"
    and l: "length (active_markers x) < length (active_markers x')"
  from c have "active_markers x = [] \<and> length (active_markers x') = 1"
  proof (cases rule: loop_pass_Continue)
    case (close j st en cb marked)
    have "length (active_markers x') \<le> length (active_markers x)"
      by (subst close(7)) simp
    with l show ?thesis by simp
  next
    case (opened st en cb before)
    have "length (active_markers x') = 1" by (subst opened(6)) simp
    with opened(1) show ?thesis by simp
  next
    case (sentence m)
    have "active_markers x' = active_markers x" by (subst sentence(4)) simp
    with l show ?thesis by simp
  qed
  then show "active_markers x = []" "length (active_markers x') = 1" by simp_all
qed

theorem at_most_one_active_marker_witness:
  "reachable (Some [(str ''<a>'', str ''</a>'', Some ''cb'')]) (Some ''say'')
     \<lparr>full_text = str ''<a>x'', buffer = str ''x'',
      active_markers = [(str ''<a>'', str ''</a>'', Some ''cb'')], calls = []\<rparr> \<and>
   loop_pass (Some [(str ''<a>'', str ''</a>'', Some ''cb'')]) (Some ''say'')
     \<lparr>full_text = str ''<a>x'', buffer = str ''<a>x'', active_markers = [], calls = []\<rparr> =
   Continue \<lparr>full_text = str ''<a>x'', buffer = str ''x'',
      active_markers = [(str ''<a>'', str ''</a>'', Some ''cb'')], calls = []\<rparr> \<and>
   length (active_markers \<lparr>full_text = str ''<a>x'', buffer = str ''x'',
      active_markers = [(str ''<a>'', str ''</a>'', Some ''cb'')], calls = ([] :: string call list)\<rparr>) \<le> 1 \<and>
   length (active_markers \<lparr>full_text = str ''<a>x'', buffer = str ''x'',
      active_markers = [(str ''<a>'', str ''</a>'', Some ''cb'')], calls = ([] :: string call list)\<rparr>) = 1"
proof -
  let ?mt = "Some [(str ''<a>'', str ''</a>'', Some ''cb'')]"
  let ?s0 = "\<lparr>full_text = str ''<a>x'', buffer = str ''<a>x'', active_markers = [],
              calls = ([] :: string call list)\<rparr>"
  let ?s1 = "\<lparr>full_text = str ''<a>x'', buffer = str ''x'',
      active_markers = [(str ''<a>'', str ''</a>'', Some ''cb'')], calls = ([] :: string call list)\<rparr>"
  have r0: "reachable ?mt (Some ''say'') (receive (str ''<a>x'') init)"
    by (rule reach_receive [OF reach_init])
  have e0: "receive (str ''<a>x'') init = ?s0" by (simp add: receive_def init_def)
  have p: "loop_pass ?mt (Some ''say'') ?s0 = Continue ?s1" by (simp add: run_defs)
  have "buffer ?s0 \<noteq> []" by (simp add: str_def)
  from reach_loop [OF r0 [unfolded e0] this] have r1: "reachable ?mt (Some ''say'') ?s1"
    unfolding p by simp
  have l: "length (active_markers ?s0) < length (active_markers ?s1)" by simp
  from at_most_one_active_marker [of ?mt "Some ''say''" ?s1 ?s0 ?s1] r1 p l
  have "length (active_markers ?s1) \<le> 1 \<and> length (active_markers ?s1) = 1" by blast
  with r1 p show ?thesis by blast
qed

text \<open>
  C10. When every marker start-token and end-token is a non-empty string,
  \<open>process_text_stream\<close> terminates on every finite fragment sequence, and returns. A pass
  of the consume loop that does not leave the loop strictly shortens the buffer: closing a
  marker removes the end-token and at least one character before it, opening a marker
  removes at least the start-token, a sentence match removes at least one character. A
  pass of the final loop that does not leave the loop removes an active marker.
\<close>

theorem process_text_stream_terminates:
  assumes "tokens_nonempty marker_tuples"
  shows "(\<exists>r cs. process_text_stream text_stream sentence_callback marker_tuples =
                   Some (Inr r, cs)) \<and>
    (loop_pass marker_tuples sentence_callback x = Continue x' \<longrightarrow>
       length (buffer x') < length (buffer x)) \<and>
    (loop_pass marker_tuples sentence_callback u = Continue u' \<longrightarrow> active_markers u \<noteq> [] \<longrightarrow>
       (\<exists>m \<in> set (active_markers u).
          length (buffer u') + length (fst (snd m)) < length (buffer u))) \<and>
    (loop_pass marker_tuples sentence_callback v = Continue v' \<longrightarrow>
     length (active_markers v) < length (active_markers v') \<longrightarrow>
       (\<exists>m \<in> set (active_markers v').
          length (buffer v') + length (fst m) \<le> length (buffer v))) \<and>
    (flush_pass sentence_callback y = Continue y' \<longrightarrow>
       length (active_markers y') < length (active_markers y))"
proof (intro conjI impI)
  from assms process_text_stream_run [of text_stream sentence_callback marker_tuples]
  show "\<exists>r cs. process_text_stream text_stream sentence_callback marker_tuples =
                 Some (Inr r, cs)"
    by auto
next
  assume "loop_pass marker_tuples sentence_callback x = Continue x'"
  then show "length (buffer x') < length (buffer x)" by (rule loop_pass_shortens)
next
  assume c: "loop_pass marker_tuples sentence_callback u = Continue u'"
    and a: "active_markers u \<noteq> []"
  from c show "\<exists>m \<in> set (active_markers u).
          length (buffer u') + length (fst (snd m)) < length (buffer u)"
  proof (cases rule: loop_pass_Continue)
    case (close j st en cb marked)
    from close(5) have "marked \<noteq> []" by (auto simp: strip_def)
    with close(6) have "length (buffer u') + length en < length (buffer u)" by simp
    moreover from close(2,3) have "(st, en, cb) \<in> set (active_markers u)"
      by (metis nth_mem)
    ultimately show ?thesis by force
  next
    case (opened st en cb before)
    with a show ?thesis by simp
  next
    case (sentence m)
    with a show ?thesis by simp
  qed
next
  assume c: "loop_pass marker_tuples sentence_callback v = Continue v'"
    and l: "length (active_markers v) < length (active_markers v')"
  from c show "\<exists>m \<in> set (active_markers v').
          length (buffer v') + length (fst m) \<le> length (buffer v)"
  proof (cases rule: loop_pass_Continue)
    case (close j st en cb marked)
    have "length (active_markers v') \<le> length (active_markers v)" by (subst close(7)) simp
    with l show ?thesis by simp
  next
    case (opened st en cb before)
    have "active_markers v' = [(st, en, cb)]" by (subst opened(6)) simp
    with opened(5) show ?thesis by simp
  next
    case (sentence m)
    have "active_markers v' = active_markers v" by (subst sentence(4)) simp
    with l show ?thesis by simp
  qed
next
  assume "flush_pass sentence_callback y = Continue y'"
  then show "length (active_markers y') < length (active_markers y)"
    by (rule flush_pass_shortens)
qed

theorem process_text_stream_terminates_witness:
  "tokens_nonempty (Some [(str ''<a>'', str ''</a>'', Some ''cb'')]) \<and>
   process_text_stream [str ''<a>hi</a>ok. ''] (Some ''say'')
       (Some [(str ''<a>'', str ''</a>'', Some ''cb'')]) =
     Some (Inr (str ''<a>hi</a>ok. ''),
           [Marker_call ''cb'' (str ''hi''), Sentence_call ''say'' (str ''ok.'')]) \<and>
   loop_pass (Some [(str ''<a>'', str ''</a>'', Some ''cb'')]) (Some ''say'')
     \<lparr>full_text = [], buffer = str ''ok. '', active_markers = [], calls = []\<rparr> =
     Continue \<lparr>full_text = [], buffer = [], active_markers = [],
               calls = [Sentence_call ''say'' (str ''ok.'')]\<rparr> \<and>
   loop_pass (Some [(str ''<a>'', str ''</a>'', Some ''cb'')]) (Some ''say'')
     \<lparr>full_text = [], buffer = str ''hi</a>ok. '',
      active_markers = [(str ''<a>'', str ''</a>'', Some ''cb'')], calls = []\<rparr> =
     Continue \<lparr>full_text = [], buffer = str ''ok. '', active_markers = [],
               calls = [Marker_call ''cb'' (str ''hi'')]\<rparr> \<and>
   loop_pass (Some [(str ''<a>'', str ''</a>'', Some ''cb'')]) (Some ''say'')
     \<lparr>full_text = [], buffer = str ''<a>hi</a>ok. '', active_markers = [], calls = []\<rparr> =
     Continue \<lparr>full_text = [], buffer = str ''hi</a>ok. '',
               active_markers = [(str ''<a>'', str ''</a>'', Some ''cb'')], calls = []\<rparr> \<and>
   flush_pass (Some ''say'')
     \<lparr>full_text = [], buffer = str ''z'',
      active_markers = [(str ''<a>'', str ''</a>'', Some ''cb'')], calls = []\<rparr> =
     Continue \<lparr>full_text = [], buffer = str ''z'', active_markers = [], calls = []\<rparr> \<and>
   length (str '''') < length (str ''ok. '') \<and>
   length (str ''ok. '') + length (str ''</a>'') < length (str ''hi</a>ok. '') \<and>
   length (str ''hi</a>ok. '') + length (str ''<a>'') \<le> length (str ''<a>hi</a>ok. '')"
proof -
  let ?m = "(str ''<a>'', str ''</a>'', Some ''cb'')"
  let ?mt = "Some [?m]"
  let ?x = "\<lparr>full_text = [], buffer = str ''ok. '', active_markers = [],
             calls = ([] :: string call list)\<rparr>"
  let ?x' = "\<lparr>full_text = [], buffer = [], active_markers = [],
               calls = [Sentence_call ''say'' (str ''ok.'')]\<rparr>"
  let ?u = "\<lparr>full_text = [], buffer = str ''hi</a>ok. '',
      active_markers = [?m], calls = ([] :: string call list)\<rparr>"
  let ?u' = "\<lparr>full_text = [], buffer = str ''ok. '', active_markers = [],
               calls = [Marker_call ''cb'' (str ''hi'')]\<rparr>"
  let ?v = "\<lparr>full_text = [], buffer = str ''<a>hi</a>ok. '', active_markers = [],
             calls = ([] :: string call list)\<rparr>"
  let ?v' = "\<lparr>full_text = [], buffer = str ''hi</a>ok. '',
               active_markers = [?m], calls = ([] :: string call list)\<rparr>"
  let ?y = "\<lparr>full_text = [], buffer = str ''z'',
      active_markers = [?m], calls = ([] :: string call list)\<rparr>"
  let ?y' = "\<lparr>full_text = [], buffer = str ''z'', active_markers = [],
      calls = ([] :: string call list)\<rparr>"
  have t: "tokens_nonempty ?mt" by (simp add: tokens_nonempty_def tuples_of_def str_def)
  have px: "loop_pass ?mt (Some ''say'') ?x = Continue ?x'" by (simp add: run_defs)
  have pu: "loop_pass ?mt (Some ''say'') ?u = Continue ?u'" by (simp add: run_defs)
  have pv: "loop_pass ?mt (Some ''say'') ?v = Continue ?v'" by (simp add: run_defs)
  have py: "flush_pass (Some ''say'') ?y = Continue ?y'" by (simp add: run_defs)
  have run: "process_text_stream [str ''<a>hi</a>ok. ''] (Some ''say'') ?mt =
     Some (Inr (str ''<a>hi</a>ok. ''),
           [Marker_call ''cb'' (str ''hi''), Sentence_call ''say'' (str ''ok.'')])"
    by (simp add: run_defs)
  note th = process_text_stream_terminates [OF t, of "[str ''<a>hi</a>ok. '']" "Some ''say''"
      ?x ?x' ?u ?u' ?v ?v' ?y ?y']
  from th px have 1: "length (buffer ?x') < length (buffer ?x)" by blast
  from th pu have "\<exists>m \<in> set (active_markers ?u).
      length (buffer ?u') + length (fst (snd m)) < length (buffer ?u)" by simp
  then have 2: "length (str ''ok. '') + length (str ''</a>'') < length (str ''hi</a>ok. '')"
    by simp
  from th pv have "\<exists>m \<in> set (active_markers ?v').
      length (buffer ?v') + length (fst m) \<le> length (buffer ?v)" by simp
  then have 3: "length (str ''hi</a>ok. '') + length (str ''<a>'') \<le> length (str ''<a>hi</a>ok. '')"
    by simp
  from 1 have 1: "length (str '''') < length (str ''ok. '')" by (simp add: str_def)
  from t run px pu pv py 1 2 3 show ?thesis by blast
qed

end
